theory Spec2Isabelle
  imports Main "HOL-Library.Word" "HOL-Library.AList"
begin

section \<open>Machine integers, objects and buffers\<close>

text \<open>
  The class template \<open>Array<T>\<close> of \<^verbatim>\<open>src/array.h\<close> keeps three members: a pointer
  \<open>data\<close> to a buffer obtained from \<open>new T[...]\<close>, and two \<open>int\<close>s, \<open>size\<close> and
  \<open>capacity\<close>. An \<open>int\<close> is a 32-bit two's complement word: arithmetic wraps around
  (the C++ standard leaves signed overflow undefined; the wrap-around is what the
  hardware does), comparisons are the signed ones (\<open><s\<close>, \<open>\<le>s\<close>) and \<open>sint\<close> reads
  the value.

  A pointer to a buffer is a natural number, \<open>0\<close> being \<open>nullptr\<close>; the address of an
  \<open>Array\<close> object is a natural number too, so that \<open>this == &other\<close> is equality of
  addresses. The member \<open>size\<close> is written \<open>size'\<close>, the search \<open>find\<close> is written
  \<open>find'\<close>: both names are taken in HOL.
\<close>

type_synonym cint = "32 word"
type_synonym ptr = nat
type_synonym ref = nat

record Array =
  data :: ptr
  size' :: cint
  capacity :: cint

text \<open>
  The memory: the \<open>Array\<close> object at each address, the live buffers (an association
  list from the pointer returned by \<open>new[]\<close> to the slots), and the indeterminate
  contents that the slots of a default-initialised \<open>new T[n]\<close> hold for a scalar \<open>T\<close>
  (arbitrary: they are part of the state, so every theorem holds whatever they are).
  Allocation never fails for lack of memory.
\<close>

record 'a memory =
  objs :: "ref \<Rightarrow> Array"
  bufs :: "(ptr \<times> 'a list) list"
  indeterminate :: "ptr \<Rightarrow> nat \<Rightarrow> 'a"

text \<open>
  What a call does: it returns a value, or throws a C++ exception (the memory is the one
  at the \<open>throw\<close>), or has undefined behaviour (an access outside a live buffer, a
  \<open>delete[]\<close> of a pointer that is not live, the end of a value-returning function
  reached without \<open>return\<close>), or never returns.
\<close>

datatype exn = out_of_range string | bad_array_new_length

datatype ('r, 's) result = Returned 'r 's | Thrown exn 's | Undefined | Diverges

fun andThen :: "('r, 's) result \<Rightarrow> ('r \<Rightarrow> 's \<Rightarrow> ('q, 's) result) \<Rightarrow> ('q, 's) result" where
  "andThen (Returned r s) f = f r s"
| "andThen (Thrown e s) f = Thrown e s"
| "andThen Undefined f = Undefined"
| "andThen Diverges f = Diverges"

definition buffer :: "'a memory \<Rightarrow> ptr \<Rightarrow> 'a list option" where
  "buffer s p = (if p = 0 then None else map_of (bufs s) p)"

definition fresh :: "(ptr \<times> 'a list) list \<Rightarrow> ptr" where
  "fresh bs = Suc (fold max (map fst bs) 0)"

text \<open>\<open>new T[n]\<close>: default-initialised slots. A negative \<open>n\<close> throws.\<close>

definition new_array :: "cint \<Rightarrow> 'a memory \<Rightarrow> (ptr, 'a memory) result" where
  "new_array n s =
     (if n <s 0 then Thrown bad_array_new_length s
      else let p = fresh (bufs s)
           in Returned p (s\<lparr>bufs := (p, map (indeterminate s p) [0..<nat (sint n)]) # bufs s\<rparr>))"

text \<open>\<open>new T[n]()\<close>: value-initialised slots, \<open>T()\<close> being written \<open>0\<close>.\<close>

definition new_array_value :: "cint \<Rightarrow> 'a::zero memory \<Rightarrow> (ptr, 'a memory) result" where
  "new_array_value n s =
     (if n <s 0 then Thrown bad_array_new_length s
      else let p = fresh (bufs s)
           in Returned p (s\<lparr>bufs := (p, replicate (nat (sint n)) 0) # bufs s\<rparr>))"

text \<open>\<open>delete[] p\<close>: nothing for \<open>nullptr\<close>, undefined for a pointer that is not live.\<close>

definition delete_array :: "ptr \<Rightarrow> 'a memory \<Rightarrow> (unit, 'a memory) result" where
  "delete_array p s =
     (if p = 0 then Returned () s
      else case buffer s p of
             None \<Rightarrow> Undefined
           | Some xs \<Rightarrow> Returned () (s\<lparr>bufs := AList.delete p (bufs s)\<rparr>))"

text \<open>
  \<open>p[i]\<close> read and written. \<open>None\<close> is undefined behaviour: \<open>p\<close> is not a live buffer
  or \<open>i\<close> is not one of its slots.
\<close>

definition load :: "ptr \<Rightarrow> cint \<Rightarrow> 'a memory \<Rightarrow> 'a option" where
  "load p i s =
     (case buffer s p of
        None \<Rightarrow> None
      | Some xs \<Rightarrow> if 0 \<le>s i \<and> nat (sint i) < length xs then Some (xs ! nat (sint i)) else None)"

definition store :: "ptr \<Rightarrow> cint \<Rightarrow> 'a \<Rightarrow> 'a memory \<Rightarrow> 'a memory option" where
  "store p i v s =
     (case buffer s p of
        None \<Rightarrow> None
      | Some xs \<Rightarrow>
          if 0 \<le>s i \<and> nat (sint i) < length xs
          then Some (s\<lparr>bufs := AList.update p (xs[nat (sint i) := v]) (bufs s)\<rparr>)
          else None)"

text \<open>
  \<open>const T&\<close>, the parameter of push and unshift: a reference, not a copy. It refers to
  an object of its own, which holds a value and which no operation of a container
  touches (a temporary, as for a literal argument, or a variable), or to the slot \<open>i\<close> of
  the buffer \<open>p\<close>, which is what \<open>operator[]\<close> and \<open>find\<close> hand out. The value is the one the
  object holds when the reference is read; a reference into a buffer that is no longer
  live cannot be read.
\<close>

datatype 'a cref = Object 'a | Element ptr cint

fun deref :: "'a cref \<Rightarrow> 'a memory \<Rightarrow> 'a option" where
  "deref (Object v) s = Some v"
| "deref (Element p i) s = load p i s"

text \<open>Assignments to the members of the object at \<open>this\<close>.\<close>

definition set_data :: "ref \<Rightarrow> ptr \<Rightarrow> 'a memory \<Rightarrow> 'a memory" where
  "set_data this p s = s\<lparr>objs := (objs s)(this := (objs s this)\<lparr>data := p\<rparr>)\<rparr>"

definition set_size :: "ref \<Rightarrow> cint \<Rightarrow> 'a memory \<Rightarrow> 'a memory" where
  "set_size this n s = s\<lparr>objs := (objs s)(this := (objs s this)\<lparr>size' := n\<rparr>)\<rparr>"

definition set_capacity :: "ref \<Rightarrow> cint \<Rightarrow> 'a memory \<Rightarrow> 'a memory" where
  "set_capacity this n s = s\<lparr>objs := (objs s)(this := (objs s this)\<lparr>capacity := n\<rparr>)\<rparr>"

section \<open>ensureCapacity\<close>

text \<open>
  The loop \<^verbatim>\<open>while (newCapacity < minCapacity) newCapacity *= 2;\<close> of lines 28-29.
  The product wraps around, and the loop need not end: \<open>None\<close> is "never returns".
\<close>

partial_function (option) ensureCapacity_while :: "cint \<Rightarrow> cint \<Rightarrow> cint option" where
  "ensureCapacity_while newCapacity minCapacity =
     (if newCapacity <s minCapacity then ensureCapacity_while (newCapacity * 2) minCapacity
      else Some newCapacity)"

declare ensureCapacity_while.simps [code]

lemma sint_inc: "i <s (n::cint) \<Longrightarrow> sint (i + 1) = sint i + 1"
  using sint_lt [of n] sint_ge [of i]
  by (simp add: word_sless_alt sint_word_ariths signed_take_bit_int_eq_self)

lemma sint_dec: "0 <s (i::cint) \<Longrightarrow> sint (i - 1) = sint i - 1"
  using sint_lt [of i]
  by (simp add: word_sless_alt sint_word_ariths signed_take_bit_int_eq_self)

lemma objs_store: "store p i v s = Some s' \<Longrightarrow> objs s' = objs s"
  by (auto simp: store_def split: option.splits if_splits)

text \<open>The loop \<^verbatim>\<open>for (int i = 0; i < size; ++i) newData[i] = data[i];\<close> of lines 32-33.\<close>

function ensureCapacity_for :: "ref \<Rightarrow> ptr \<Rightarrow> cint \<Rightarrow> 'a memory \<Rightarrow> (unit, 'a memory) result" where
  "ensureCapacity_for this newData i s =
     (if i <s size' (objs s this)
      then case load (data (objs s this)) i s of
             None \<Rightarrow> Undefined
           | Some v \<Rightarrow>
               (case store newData i v s of
                  None \<Rightarrow> Undefined
                | Some s' \<Rightarrow> ensureCapacity_for this newData (i + 1) s')
      else Returned () s)"
  by pat_completeness auto
termination
proof (relation "measure (\<lambda>(this, newData, i, s). nat (sint (size' (objs s this)) - sint i))")
  show "wf (measure (\<lambda>(this, newData, i, s). nat (sint (size' (objs s this)) - sint i)))"
    by simp
next
  fix this :: ref and newData :: ptr and i :: cint and s s' :: "'a memory" and v :: 'a
  assume lt: "i <s size' (objs s this)" and st: "store newData i v s = Some s'"
  from lt have "sint i < sint (size' (objs s this))"
    by (simp add: word_sless_alt)
  with sint_inc [OF lt] objs_store [OF st]
  show "((this, newData, i + 1, s'), (this, newData, i, s))
          \<in> measure (\<lambda>(this, newData, i, s). nat (sint (size' (objs s this)) - sint i))"
    by simp
qed

declare ensureCapacity_for.simps [simp del]

definition ensureCapacity :: "ref \<Rightarrow> cint \<Rightarrow> 'a memory \<Rightarrow> (unit, 'a memory) result" where
  "ensureCapacity this minCapacity s =
     (if minCapacity \<le>s capacity (objs s this) then Returned () s
      else case ensureCapacity_while
                  (if 0 <s capacity (objs s this) then capacity (objs s this) * 2 else 1)
                  minCapacity of
             None \<Rightarrow> Diverges
           | Some newCapacity \<Rightarrow>
               andThen (new_array newCapacity s) (\<lambda>newData s1.
               andThen (ensureCapacity_for this newData 0 s1) (\<lambda>_ s2.
               andThen (delete_array (data (objs s2 this)) s2) (\<lambda>_ s3.
               Returned () (set_capacity this newCapacity (set_data this newData s3))))))"

section \<open>Construction and assignment\<close>

text \<open>\<^verbatim>\<open>explicit Array(int initialCapacity = 4)\<close>, lines 46-47, for the object at \<open>this\<close>.\<close>

definition Array_ctor :: "ref \<Rightarrow> cint \<Rightarrow> 'a::zero memory \<Rightarrow> (unit, 'a memory) result" where
  "Array_ctor this initialCapacity s =
     andThen (new_array_value initialCapacity s) (\<lambda>p s1.
     Returned () (s1\<lparr>objs := (objs s1)(this := \<lparr>data = p, size' = 0, capacity = initialCapacity\<rparr>)\<rparr>))"

text \<open>The loop \<^verbatim>\<open>for (int i = 0; i < size; ++i) data[i] = other.data[i];\<close> of lines 78-79.\<close>

function operator_assign_for :: "ref \<Rightarrow> ref \<Rightarrow> cint \<Rightarrow> 'a memory \<Rightarrow> (unit, 'a memory) result" where
  "operator_assign_for this other i s =
     (if i <s size' (objs s this)
      then case load (data (objs s other)) i s of
             None \<Rightarrow> Undefined
           | Some v \<Rightarrow>
               (case store (data (objs s this)) i v s of
                  None \<Rightarrow> Undefined
                | Some s' \<Rightarrow> operator_assign_for this other (i + 1) s')
      else Returned () s)"
  by pat_completeness auto
termination
proof (relation "measure (\<lambda>(this, other, i, s). nat (sint (size' (objs s this)) - sint i))")
  show "wf (measure (\<lambda>(this, other, i, s). nat (sint (size' (objs s this)) - sint i)))"
    by simp
next
  fix this other :: ref and i :: cint and s s' :: "'a memory" and v :: 'a
  assume lt: "i <s size' (objs s this)" and st: "store (data (objs s this)) i v s = Some s'"
  from lt have "sint i < sint (size' (objs s this))"
    by (simp add: word_sless_alt)
  with sint_inc [OF lt] objs_store [OF st]
  show "((this, other, i + 1, s'), (this, other, i, s))
          \<in> measure (\<lambda>(this, other, i, s). nat (sint (size' (objs s this)) - sint i))"
    by simp
qed

declare operator_assign_for.simps [simp del]

text \<open>
  \<^verbatim>\<open>Array& operator=(const Array& other)\<close>, lines 71-81. The first line compares the two
  addresses and returns \<open>*this\<close>. The other path ends at the closing brace with no
  \<open>return\<close>, which is undefined behaviour in a function that returns a reference.
\<close>

definition operator_assign_copy :: "ref \<Rightarrow> ref \<Rightarrow> 'a::zero memory \<Rightarrow> (ref, 'a memory) result" where
  "operator_assign_copy this other s =
     (if this = other then Returned this s
      else andThen (delete_array (data (objs s this)) s) (\<lambda>_ s1.
           andThen (new_array_value (capacity (objs s1 other)) s1) (\<lambda>p s2.
           andThen (operator_assign_for this other 0
                      (set_capacity this (capacity (objs s2 other))
                        (set_size this (size' (objs s2 other)) (set_data this p s2)))) (\<lambda>_ s3.
           Undefined))))"

text \<open>\<^verbatim>\<open>Array& operator=(Array&& other) noexcept\<close>, lines 101-112.\<close>

definition operator_assign_move :: "ref \<Rightarrow> ref \<Rightarrow> 'a memory \<Rightarrow> (ref, 'a memory) result" where
  "operator_assign_move this other s =
     (if this \<noteq> other
      then andThen (delete_array (data (objs s this)) s) (\<lambda>_ s1.
           let s2 = set_data this (data (objs s1 other)) s1;
               s3 = set_size this (size' (objs s2 other)) s2;
               s4 = set_capacity this (capacity (objs s3 other)) s3;
               s5 = set_data other 0 s4;
               s6 = set_size other 0 s5;
               s7 = set_capacity other 0 s6
           in Returned this s7)
      else Returned this s)"

section \<open>Access\<close>

text \<open>
  \<^verbatim>\<open>T& operator[](int index)\<close> and its \<open>const\<close> twin, lines 121-124 and 133-136: the
  same body. The reference returned is the slot \<open>index\<close> of the buffer \<open>data\<close>; the
  operator itself reads no slot.
\<close>

definition operator_subscript :: "ref \<Rightarrow> cint \<Rightarrow> 'a memory \<Rightarrow> (ptr \<times> cint, 'a memory) result" where
  "operator_subscript this index s =
     (if index <s 0 \<or> size' (objs s this) \<le>s index
      then Thrown (out_of_range ''Index out of bounds'') s
      else Returned (data (objs s this), index) s)"

definition getSize :: "ref \<Rightarrow> 'a memory \<Rightarrow> cint" where
  "getSize this s = size' (objs s this)"

definition getCapacity :: "ref \<Rightarrow> 'a memory \<Rightarrow> cint" where
  "getCapacity this s = capacity (objs s this)"

section \<open>push, pop, unshift, shift\<close>

text \<open>
  \<^verbatim>\<open>void push(const T& value)\<close>, lines 180-183. The reference is read at
  \<open>data[size++] = value\<close>, after ensureCapacity has run; the assignment stores, then counts.
\<close>

definition push :: "ref \<Rightarrow> 'a cref \<Rightarrow> 'a memory \<Rightarrow> (unit, 'a memory) result" where
  "push this val s =
     andThen (ensureCapacity this (size' (objs s this) + 1) s) (\<lambda>_ s1.
     case deref val s1 of
       None \<Rightarrow> Undefined
     | Some v \<Rightarrow>
         (case store (data (objs s1 this)) (size' (objs s1 this)) v s1 of
            None \<Rightarrow> Undefined
          | Some s2 \<Rightarrow> Returned () (set_size this (size' (objs s2 this) + 1) s2)))"

text \<open>\<^verbatim>\<open>T pop()\<close>, lines 191-194: \<open>data[--size]\<close> counts down, then reads.\<close>

definition pop :: "ref \<Rightarrow> 'a memory \<Rightarrow> ('a, 'a memory) result" where
  "pop this s =
     (if size' (objs s this) = 0 then Thrown (out_of_range ''Pop from empty array'') s
      else let s1 = set_size this (size' (objs s this) - 1) s
           in case load (data (objs s1 this)) (size' (objs s1 this)) s1 of
                None \<Rightarrow> Undefined
              | Some v \<Rightarrow> Returned v s1)"

text \<open>The loop \<^verbatim>\<open>for (int i = size; i > 0; --i) data[i] = data[i - 1];\<close> of lines 203-204.\<close>

function unshift_for :: "ref \<Rightarrow> cint \<Rightarrow> 'a memory \<Rightarrow> (unit, 'a memory) result" where
  "unshift_for this i s =
     (if 0 <s i
      then case load (data (objs s this)) (i - 1) s of
             None \<Rightarrow> Undefined
           | Some v \<Rightarrow>
               (case store (data (objs s this)) i v s of
                  None \<Rightarrow> Undefined
                | Some s' \<Rightarrow> unshift_for this (i - 1) s')
      else Returned () s)"
  by pat_completeness auto
termination
proof (relation "measure (\<lambda>(this, i, s). nat (sint i))")
  show "wf (measure (\<lambda>(this, i, s). nat (sint i)))"
    by simp
next
  fix this :: ref and i :: cint and s s' :: "'a memory"
  assume pos: "0 <s i"
  then have "0 < sint i"
    by (simp add: word_sless_alt)
  with sint_dec [OF pos]
  show "((this, i - 1, s'), (this, i, s)) \<in> measure (\<lambda>(this, i, s). nat (sint i))"
    by simp
qed

declare unshift_for.simps [simp del]

text \<open>
  \<^verbatim>\<open>void unshift(const T& value)\<close>, lines 201-207. The reference is read at
  \<open>data[0] = value\<close>, after ensureCapacity and after the loop have run.
\<close>

definition unshift :: "ref \<Rightarrow> 'a cref \<Rightarrow> 'a memory \<Rightarrow> (unit, 'a memory) result" where
  "unshift this val s =
     andThen (ensureCapacity this (size' (objs s this) + 1) s) (\<lambda>_ s1.
     andThen (unshift_for this (size' (objs s1 this)) s1) (\<lambda>_ s2.
     case deref val s2 of
       None \<Rightarrow> Undefined
     | Some v \<Rightarrow>
         (case store (data (objs s2 this)) 0 v s2 of
            None \<Rightarrow> Undefined
          | Some s3 \<Rightarrow> Returned () (set_size this (size' (objs s3 this) + 1) s3))))"

text \<open>The loop \<^verbatim>\<open>for (int i = 1; i < size; ++i) data[i - 1] = data[i];\<close> of lines 218-219.\<close>

function shift_for :: "ref \<Rightarrow> cint \<Rightarrow> 'a memory \<Rightarrow> (unit, 'a memory) result" where
  "shift_for this i s =
     (if i <s size' (objs s this)
      then case load (data (objs s this)) i s of
             None \<Rightarrow> Undefined
           | Some v \<Rightarrow>
               (case store (data (objs s this)) (i - 1) v s of
                  None \<Rightarrow> Undefined
                | Some s' \<Rightarrow> shift_for this (i + 1) s')
      else Returned () s)"
  by pat_completeness auto
termination
proof (relation "measure (\<lambda>(this, i, s). nat (sint (size' (objs s this)) - sint i))")
  show "wf (measure (\<lambda>(this, i, s). nat (sint (size' (objs s this)) - sint i)))"
    by simp
next
  fix this :: ref and i :: cint and s s' :: "'a memory" and v :: 'a
  assume lt: "i <s size' (objs s this)" and st: "store (data (objs s this)) (i - 1) v s = Some s'"
  from lt have "sint i < sint (size' (objs s this))"
    by (simp add: word_sless_alt)
  with sint_inc [OF lt] objs_store [OF st]
  show "((this, i + 1, s'), (this, i, s))
          \<in> measure (\<lambda>(this, i, s). nat (sint (size' (objs s this)) - sint i))"
    by simp
qed

declare shift_for.simps [simp del]

text \<open>\<^verbatim>\<open>T shift()\<close>, lines 215-222.\<close>

definition shift :: "ref \<Rightarrow> 'a memory \<Rightarrow> ('a, 'a memory) result" where
  "shift this s =
     (if size' (objs s this) = 0 then Thrown (out_of_range ''Shift from empty array'') s
      else case load (data (objs s this)) 0 s of
             None \<Rightarrow> Undefined
           | Some val \<Rightarrow>
               andThen (shift_for this 1 s) (\<lambda>_ s1.
               Returned val (set_size this (size' (objs s1 this) - 1) s1)))"

section \<open>Search\<close>

text \<open>
  \<^verbatim>\<open>T* find(Predicate pred) const\<close>, lines 232-236, with its loop. The pointer returned is
  \<open>&data[i]\<close>, the slot \<open>i\<close> of the buffer \<open>data\<close>, or \<open>nullptr\<close>, written \<open>None\<close>.
\<close>

function find_for :: "ref \<Rightarrow> ('a \<Rightarrow> bool) \<Rightarrow> cint \<Rightarrow> 'a memory \<Rightarrow> ((ptr \<times> cint) option, 'a memory) result" where
  "find_for this pred i s =
     (if i <s size' (objs s this)
      then case load (data (objs s this)) i s of
             None \<Rightarrow> Undefined
           | Some v \<Rightarrow>
               if pred v then Returned (Some (data (objs s this), i)) s
               else find_for this pred (i + 1) s
      else Returned None s)"
  by pat_completeness auto
termination
proof (relation "measure (\<lambda>(this, pred, i, s). nat (sint (size' (objs s this)) - sint i))")
  show "wf (measure (\<lambda>(this, pred, i, s). nat (sint (size' (objs s this)) - sint i)))"
    by simp
next
  fix this :: ref and i :: cint and s :: "'a memory"
  assume lt: "i <s size' (objs s this)"
  then have "sint i < sint (size' (objs s this))"
    by (simp add: word_sless_alt)
  with sint_inc [OF lt]
  show "((this, pred, i + 1, s), (this, pred, i, s))
          \<in> measure (\<lambda>(this, pred, i, s). nat (sint (size' (objs s this)) - sint i))"
    for pred :: "'a \<Rightarrow> bool"
    by simp
qed

declare find_for.simps [simp del]

definition find' :: "ref \<Rightarrow> ('a \<Rightarrow> bool) \<Rightarrow> 'a memory \<Rightarrow> ((ptr \<times> cint) option, 'a memory) result" where
  "find' this pred s = find_for this pred 0 s"

text \<open>\<^verbatim>\<open>int findIndex(Predicate pred) const\<close>, lines 246-250, with its loop.\<close>

function findIndex_for :: "ref \<Rightarrow> ('a \<Rightarrow> bool) \<Rightarrow> cint \<Rightarrow> 'a memory \<Rightarrow> (cint, 'a memory) result" where
  "findIndex_for this pred i s =
     (if i <s size' (objs s this)
      then case load (data (objs s this)) i s of
             None \<Rightarrow> Undefined
           | Some v \<Rightarrow>
               if pred v then Returned i s
               else findIndex_for this pred (i + 1) s
      else Returned (- 1) s)"
  by pat_completeness auto
termination
proof (relation "measure (\<lambda>(this, pred, i, s). nat (sint (size' (objs s this)) - sint i))")
  show "wf (measure (\<lambda>(this, pred, i, s). nat (sint (size' (objs s this)) - sint i)))"
    by simp
next
  fix this :: ref and i :: cint and s :: "'a memory"
  assume lt: "i <s size' (objs s this)"
  then have "sint i < sint (size' (objs s this))"
    by (simp add: word_sless_alt)
  with sint_inc [OF lt]
  show "((this, pred, i + 1, s), (this, pred, i, s))
          \<in> measure (\<lambda>(this, pred, i, s). nat (sint (size' (objs s this)) - sint i))"
    for pred :: "'a \<Rightarrow> bool"
    by simp
qed

declare findIndex_for.simps [simp del]

definition findIndex :: "ref \<Rightarrow> ('a \<Rightarrow> bool) \<Rightarrow> 'a memory \<Rightarrow> (cint, 'a memory) result" where
  "findIndex this pred s = findIndex_for this pred 0 s"

section \<open>The driver\<close>

text \<open>
  \<^verbatim>\<open>main\<close> of \<^verbatim>\<open>src/main.cpp\<close>, without the printing: the statements that act on the
  local \<open>arr\<close>, in order. A statement that throws, is undefined or never returns ends the
  run; the value a statement returns is dropped, as in \<^verbatim>\<open>arr.pop();\<close>. Every argument of
  push and unshift is a literal: the reference is to a temporary.
\<close>

fun run :: "('s \<Rightarrow> (unit, 's) result) list \<Rightarrow> 's \<Rightarrow> (unit, 's) result" where
  "run [] s = Returned () s"
| "run (stmt # stmts) s = andThen (stmt s) (\<lambda>_. run stmts)"

definition discard :: "('s \<Rightarrow> ('r, 's) result) \<Rightarrow> 's \<Rightarrow> (unit, 's) result" where
  "discard f s = andThen (f s) (\<lambda>_. Returned ())"

definition main_statements :: "ref \<Rightarrow> (int memory \<Rightarrow> (unit, int memory) result) list" where
  "main_statements arr =
     [Array_ctor arr 5,
      push arr (Object 1), push arr (Object 2), push arr (Object 3),
      push arr (Object 4), push arr (Object 5), push arr (Object 6),
      push arr (Object 1), push arr (Object 2), push arr (Object 3),
      unshift arr (Object 0),
      discard (pop arr),
      discard (shift arr)]"

section \<open>Valid containers and their contents\<close>

text \<open>
  The class invariant: \<open>0 \<le> size \<le> capacity\<close>, and \<open>data\<close> is a live buffer of exactly
  \<open>capacity\<close> slots, or \<open>nullptr\<close> with \<open>capacity = 0\<close> (an object that was moved from).
\<close>

definition valid :: "ref \<Rightarrow> 'a memory \<Rightarrow> bool" where
  "valid this s =
     (0 \<le>s size' (objs s this) \<and> size' (objs s this) \<le>s capacity (objs s this) \<and>
      (if data (objs s this) = 0 then capacity (objs s this) = 0
       else map_option length (buffer s (data (objs s this)))
              = Some (nat (sint (capacity (objs s this))))))"

text \<open>The elements of the container: the slots \<open>[0, size)\<close> of its buffer, in order.\<close>

definition elements :: "ref \<Rightarrow> 'a memory \<Rightarrow> 'a list" where
  "elements this s =
     (case buffer s (data (objs s this)) of
        None \<Rightarrow> []
      | Some xs \<Rightarrow> take (nat (sint (size' (objs s this)))) xs)"

text \<open>
  A reference that does not point into the buffer of the container at \<open>this\<close>: it refers
  to an object of its own or to a slot of another buffer.
\<close>

fun outside :: "ref \<Rightarrow> 'a memory \<Rightarrow> 'a cref \<Rightarrow> bool" where
  "outside this s (Object v) = True"
| "outside this s (Element p i) = (p \<noteq> data (objs s this))"






text \<open>
  The growth rule in the words of the specification, on unbounded integers: start from
  \<open>max(capacity, 1)\<close> and double until the value is at least \<open>minCapacity\<close>.
\<close>

function double_until :: "int \<Rightarrow> int \<Rightarrow> int" where
  "double_until c m = (if 0 < c \<and> c < m then double_until (2 * c) m else c)"
  by pat_completeness auto
termination
  by (relation "measure (\<lambda>(c, m). nat (m - c))") auto

declare double_until.simps [simp del]

definition spec_newCapacity :: "int \<Rightarrow> int \<Rightarrow> int" where
  "spec_newCapacity cap minCapacity = double_until (max cap 1) minCapacity"

section \<open>Example states\<close>

text \<open>
  Memories for concrete runs: one container, at address \<open>0\<close>; every other object is in
  the state a moved-from container has. In \<open>example_memory\<close> the container holds
  \<open>[10, 20]\<close> in a buffer of four slots; in \<open>packed_memory\<close> it holds \<open>[10, 20]\<close> in a
  buffer of two; in \<open>empty_memory\<close> no buffer is live; in \<open>full_memory\<close> it holds \<open>2^30\<close>
  elements in a buffer of \<open>2^30\<close> slots.
\<close>

definition example_memory :: "int memory" where
  "example_memory =
     \<lparr>objs = (\<lambda>_. \<lparr>data = 0, size' = 0, capacity = 0\<rparr>)(0 := \<lparr>data = 1, size' = 2, capacity = 4\<rparr>),
      bufs = [(1, [10, 20, 0, 0])],
      indeterminate = (\<lambda>_ _. 0)\<rparr>"

definition empty_memory :: "int memory" where
  "empty_memory =
     \<lparr>objs = (\<lambda>_. \<lparr>data = 0, size' = 0, capacity = 0\<rparr>),
      bufs = [],
      indeterminate = (\<lambda>_ _. 0)\<rparr>"

definition packed_memory :: "int memory" where
  "packed_memory =
     \<lparr>objs = (\<lambda>_. \<lparr>data = 0, size' = 0, capacity = 0\<rparr>)(0 := \<lparr>data = 1, size' = 2, capacity = 2\<rparr>),
      bufs = [(1, [10, 20])],
      indeterminate = (\<lambda>_ _. 0)\<rparr>"

definition full_memory :: "int memory" where
  "full_memory =
     \<lparr>objs = (\<lambda>_. \<lparr>data = 0, size' = 0, capacity = 0\<rparr>)(0 := \<lparr>data = 1, size' = 0x40000000, capacity = 0x40000000\<rparr>),
      bufs = [(1, replicate 1073741824 0)],
      indeterminate = (\<lambda>_ _. 0)\<rparr>"

section \<open>Memory: what reads, writes, allocation and release do\<close>

lemma sint_dbl: "- (2 ^ 30) \<le> sint (n::cint) \<Longrightarrow> sint n < 2 ^ 30 \<Longrightarrow> sint (n * 2) = sint n * 2"
  by (simp add: sint_word_ariths signed_take_bit_int_eq_self)

lemma fold_max_ge: "k \<in> set ks \<Longrightarrow> k \<le> fold max ks (m::nat)"
proof (induction ks arbitrary: m)
  case Nil
  then show ?case by simp
next
  case (Cons a ks)
  have mono: "m \<le> fold max ks m" for m :: nat
    by (induction ks arbitrary: m) (auto intro: order_trans [OF max.cobounded2])
  from Cons show ?case
    by (auto intro: order_trans [OF max.cobounded1 mono])
qed

lemma map_of_fresh: "map_of bs (fresh bs) = None"
proof -
  have "fresh bs \<notin> fst ` set bs"
  proof
    assume "fresh bs \<in> fst ` set bs"
    then have "fresh bs \<in> set (map fst bs)" by simp
    from fold_max_ge [OF this, of 0] show False by (simp add: fresh_def)
  qed
  then show ?thesis by (simp add: map_of_eq_None_iff)
qed

lemma fresh_nonzero: "fresh bs \<noteq> 0"
  by (simp add: fresh_def)

lemma buffer_fresh: "buffer s (fresh (bufs s)) = None"
  by (simp add: buffer_def map_of_fresh)

lemma buffer_nonzero: "buffer s p = Some xs \<Longrightarrow> p \<noteq> 0"
  by (auto simp: buffer_def split: if_splits)

lemma buffer_update:
  "p \<noteq> 0 \<Longrightarrow> buffer (s\<lparr>bufs := AList.update p ys (bufs s)\<rparr>) q = (if q = p then Some ys else buffer s q)"
  by (simp add: buffer_def update_conv')

lemma buffer_cons:
  "p \<noteq> 0 \<Longrightarrow> buffer (s\<lparr>bufs := (p, ys) # bufs s\<rparr>) q = (if q = p then Some ys else buffer s q)"
  by (simp add: buffer_def)

lemma buffer_delete:
  "buffer (s\<lparr>bufs := AList.delete p (bufs s)\<rparr>) q = (if q = p then None else buffer s q)"
  by (simp add: buffer_def delete_conv')

lemma buffer_objs_update [simp]: "buffer (s\<lparr>objs := f\<rparr>) p = buffer s p"
  by (simp add: buffer_def)

lemma load_Some:
  "buffer s p = Some xs \<Longrightarrow> 0 \<le>s i \<Longrightarrow> nat (sint i) < length xs \<Longrightarrow> load p i s = Some (xs ! nat (sint i))"
  by (simp add: load_def)

lemma store_Some:
  assumes "buffer s p = Some xs" "0 \<le>s i" "nat (sint i) < length xs"
  obtains s' where "store p i v s = Some s'" "objs s' = objs s" "indeterminate s' = indeterminate s"
    "\<And>q. buffer s' q = (if q = p then Some (xs[nat (sint i) := v]) else buffer s q)"
proof
  let ?s' = "s\<lparr>bufs := AList.update p (xs[nat (sint i) := v]) (bufs s)\<rparr>"
  show "store p i v s = Some ?s'" using assms by (simp add: store_def)
  show "objs ?s' = objs s" by simp
  show "indeterminate ?s' = indeterminate s" by simp
  show "buffer ?s' q = (if q = p then Some (xs[nat (sint i) := v]) else buffer s q)" for q
    using buffer_nonzero [OF assms(1)] by (simp add: buffer_update)
qed

section \<open>The copy loop of ensureCapacity\<close>

text \<open>
  From slot \<open>i\<close> on, the loop copies the slots below \<open>size\<close> of the old buffer into the new
  one and touches nothing else.
\<close>

lemma sint_nonneg_nat_less: "0 \<le>s (i::cint) \<Longrightarrow> i <s n \<Longrightarrow> nat (sint i) < nat (sint n)"
  by (simp add: word_sless_alt word_sle_eq)

lemma nat_sint_inc: "0 \<le>s (i::cint) \<Longrightarrow> i <s n \<Longrightarrow> nat (sint (i + 1)) = Suc (nat (sint i))"
  using sint_inc [of i n] by (simp add: word_sle_eq nat_add_distrib)

lemma ensureCapacity_for_correct:
  assumes "buffer s (data (objs s this)) = Some xs"
      and "buffer s newData = Some ys"
      and "newData \<noteq> data (objs s this)"
      and "0 \<le>s i" and "i \<le>s size' (objs s this)"
      and "nat (sint (size' (objs s this))) \<le> length xs"
      and "nat (sint (size' (objs s this))) \<le> length ys"
  shows "\<exists>s' zs. ensureCapacity_for this newData i s = Returned () s' \<and> objs s' = objs s \<and>
           buffer s' newData = Some zs \<and> length zs = length ys \<and>
           (\<forall>k<length ys. zs ! k =
              (if nat (sint i) \<le> k \<and> k < nat (sint (size' (objs s this))) then xs ! k else ys ! k)) \<and>
           (\<forall>q. q \<noteq> newData \<longrightarrow> buffer s' q = buffer s q)"
  using assms
proof (induction this newData i s arbitrary: ys rule: ensureCapacity_for.induct)
  case (1 this newData i s)
  let ?n = "nat (sint (size' (objs s this)))"
  let ?j = "nat (sint i)"
  show ?case
  proof (cases "i <s size' (objs s this)")
    case False
    with "1.prems"(5) have "?n \<le> ?j"
      by (simp add: word_sless_alt word_sle_eq)
    with False "1.prems"(2) show ?thesis
      by (subst ensureCapacity_for.simps) auto
  next
    case True
    from True "1.prems"(4) have j: "?j < ?n" and j': "nat (sint (i + 1)) = Suc ?j"
      using sint_nonneg_nat_less [OF "1.prems"(4) True] nat_sint_inc [OF "1.prems"(4) True]
      by simp_all
    from j "1.prems"(6) have jx: "?j < length xs" by linarith
    have ld: "load (data (objs s this)) i s = Some (xs ! ?j)"
      by (rule load_Some [OF "1.prems"(1) "1.prems"(4) jx])
    from j "1.prems"(7) have jy: "?j < length ys" by linarith
    obtain s1 where st: "store newData i (xs ! ?j) s = Some s1" and o1: "objs s1 = objs s"
      and b1: "\<And>q. buffer s1 q = (if q = newData then Some (ys[?j := xs ! ?j]) else buffer s q)"
      using store_Some [OF "1.prems"(2) "1.prems"(4) jy] by metis
    have "0 \<le>s i + 1" "i + 1 \<le>s size' (objs s1 this)"
      using True "1.prems"(4) sint_inc [OF True] by (simp_all add: word_sle_eq word_sless_alt o1)
    with "1.IH" [OF True ld st, of "ys[?j := xs ! ?j]"] "1.prems" b1 o1
    obtain s' zs where r: "ensureCapacity_for this newData (i + 1) s1 = Returned () s'"
      and o': "objs s' = objs s1" and b': "buffer s' newData = Some zs"
      and l': "length zs = length ys"
      and z': "\<forall>k<length ys. zs ! k =
              (if Suc ?j \<le> k \<and> k < ?n then xs ! k else (ys[?j := xs ! ?j]) ! k)"
      and f': "\<forall>q. q \<noteq> newData \<longrightarrow> buffer s' q = buffer s1 q"
      by (auto simp: j')
    have "ensureCapacity_for this newData i s = Returned () s'"
      using True ld st r by (subst ensureCapacity_for.simps) simp
    moreover have "\<forall>k<length ys. zs ! k = (if ?j \<le> k \<and> k < ?n then xs ! k else ys ! k)"
    proof (intro allI impI)
      fix k assume k: "k < length ys"
      define j n where "j = ?j" and "n = ?n"
      from z' k have "zs ! k = (if Suc j \<le> k \<and> k < n then xs ! k else (ys[j := xs ! j]) ! k)"
        unfolding j_def n_def by blast
      moreover from j have "j < n" unfolding j_def n_def .
      ultimately have "zs ! k = (if j \<le> k \<and> k < n then xs ! k else ys ! k)"
        using k by (cases "k = j") (auto simp: nth_list_update)
      then show "zs ! k = (if ?j \<le> k \<and> k < ?n then xs ! k else ys ! k)"
        unfolding j_def n_def .
    qed
    ultimately show ?thesis
      using o' o1 b' l' f' b1 by auto
  qed
qed

section \<open>The doubling loop where nothing overflows\<close>

lemma double_until_ge: "c \<le> double_until c m"
proof (induction c m rule: double_until.induct)
  case (1 c m)
  show ?case
  proof (cases "0 < c \<and> c < m")
    case True
    with "1.IH" have "2 * c \<le> double_until (2 * c) m" by simp
    with True show ?thesis by (subst double_until.simps) simp
  next
    case False
    then show ?thesis by (subst double_until.simps) auto
  qed
qed

lemma double_until_reaches: "0 < c \<Longrightarrow> m \<le> double_until c m"
proof (induction c m rule: double_until.induct)
  case (1 c m)
  show ?case
  proof (cases "c < m")
    case True
    with "1.prems" "1.IH" have "m \<le> double_until (2 * c) m" by simp
    with True "1.prems" show ?thesis by (subst double_until.simps) simp
  next
    case False
    then show ?thesis by (subst double_until.simps) simp
  qed
qed


lemma ensureCapacity_while_correct:
  "0 < sint n \<Longrightarrow> double_until (sint n) (sint m) < 2 ^ 31 \<Longrightarrow>
     \<exists>r. ensureCapacity_while n m = Some r \<and> sint r = double_until (sint n) (sint m)"
proof (induction "sint n" "sint m" arbitrary: n rule: double_until.induct)
  case 1
  show ?case
  proof (cases "n <s m")
    case False
    then have "\<not> sint n < sint m" by (simp add: word_sless_alt)
    with False show ?thesis
      by (subst ensureCapacity_while.simps, subst double_until.simps) simp
  next
    case True
    then have lt: "sint n < sint m" by (simp add: word_sless_alt)
    with "1.prems" have du: "double_until (sint n) (sint m) = double_until (2 * sint n) (sint m)"
      by (subst double_until.simps) simp
    with "1.prems" double_until_ge [of "2 * sint n" "sint m"] have "sint n < 2 ^ 30" by simp
    with "1.prems" have dbl: "sint (n * 2) = 2 * sint n"
      by (simp add: sint_dbl)
    from "1.hyps" [of "n * 2"] "1.prems" lt dbl du
    obtain r where "ensureCapacity_while (n * 2) m = Some r"
      and "sint r = double_until (2 * sint n) (sint m)"
      by auto
    with True du show ?thesis
      by (subst ensureCapacity_while.simps) simp
  qed
qed

section \<open>ensureCapacity on a valid container\<close>

lemma new_array_Returned:
  assumes "0 \<le>s n"
  obtains p s' ys where "new_array n s = Returned p s'" "objs s' = objs s"
    "p \<noteq> 0" "buffer s p = None" "length ys = nat (sint n)"
    "\<And>q. buffer s' q = (if q = p then Some ys else buffer s q)"
proof
  let ?p = "fresh (bufs s)"
  let ?ys = "map (indeterminate s ?p) [0..<nat (sint n)]"
  let ?s' = "s\<lparr>bufs := (?p, ?ys) # bufs s\<rparr>"
  from assms have "\<not> n <s 0" by (simp add: word_sless_alt word_sle_eq)
  then show "new_array n s = Returned ?p ?s'" by (simp add: new_array_def Let_def)
  show "objs ?s' = objs s" by simp
  show "?p \<noteq> 0" by (rule fresh_nonzero)
  show "buffer s ?p = None" by (rule buffer_fresh)
  show "length ?ys = nat (sint n)" by simp
  show "buffer ?s' q = (if q = ?p then Some ?ys else buffer s q)" for q
    by (simp add: buffer_cons fresh_nonzero)
qed

lemma delete_array_Returned:
  assumes "buffer s p = Some xs"
  obtains s' where "delete_array p s = Returned () s'" "objs s' = objs s"
    "\<And>q. buffer s' q = (if q = p then None else buffer s q)"
proof
  let ?s' = "s\<lparr>bufs := AList.delete p (bufs s)\<rparr>"
  show "delete_array p s = Returned () ?s'"
    using assms buffer_nonzero [OF assms] by (simp add: delete_array_def)
  show "objs ?s' = objs s" by simp
  show "buffer ?s' q = (if q = p then None else buffer s q)" for q
    by (rule buffer_delete)
qed

lemma ensureCapacity_noop:
  "minCapacity \<le>s capacity (objs s this) \<Longrightarrow> ensureCapacity this minCapacity s = Returned () s"
  by (simp add: ensureCapacity_def)

lemma ensureCapacity_grow:
  assumes v: "valid this s" and lt: "capacity (objs s this) <s minCapacity"
      and rep: "spec_newCapacity (sint (capacity (objs s this))) (sint minCapacity) < 2 ^ 31"
  shows "\<exists>s'. ensureCapacity this minCapacity s = Returned () s' \<and>
      sint (capacity (objs s' this)) = spec_newCapacity (sint (capacity (objs s this))) (sint minCapacity) \<and>
      size' (objs s' this) = size' (objs s this) \<and>
      elements this s' = elements this s \<and> valid this s' \<and>
      (\<forall>r. r \<noteq> this \<longrightarrow> objs s' r = objs s r) \<and>
      (\<forall>q. q \<noteq> data (objs s this) \<longrightarrow> buffer s q \<noteq> None \<longrightarrow> buffer s' q = buffer s q) \<and>
      buffer s (data (objs s' this)) = None"
proof -
  define cap sz old where "cap = capacity (objs s this)" and "sz = size' (objs s this)"
    and "old = data (objs s this)"
  define start where "start = (if 0 <s cap then cap * 2 else 1)"
  define R where "R = spec_newCapacity (sint cap) (sint minCapacity)"
  from v have sz0: "0 \<le> sint sz" and szc: "sint sz \<le> sint cap"
    by (simp_all add: valid_def word_sle_eq sz_def cap_def)
  from lt have cm: "sint cap < sint minCapacity" by (simp add: word_sless_alt cap_def)
  from rep have R: "R < 2 ^ 31" by (simp add: R_def cap_def)
  have start: "0 < sint start \<and> double_until (sint start) (sint minCapacity) = R"
  proof (cases "0 <s cap")
    case True
    then have pos: "0 < sint cap" by (simp add: word_sless_alt)
    then have "R = double_until (2 * sint cap) (sint minCapacity)"
      using cm by (simp add: R_def spec_newCapacity_def double_until.simps [of "sint cap"])
    moreover from this R double_until_ge [of "2 * sint cap" "sint minCapacity"]
    have "sint cap < 2 ^ 30" by simp
    with pos have "sint (cap * 2) = 2 * sint cap" by (simp add: sint_dbl)
    ultimately show ?thesis using True pos by (simp add: start_def)
  next
    case False
    with sz0 szc have "sint cap = 0" by (simp add: word_sless_alt)
    with False show ?thesis by (simp add: start_def R_def spec_newCapacity_def)
  qed
  with R ensureCapacity_while_correct [of start minCapacity]
  obtain newCapacity where w: "ensureCapacity_while start minCapacity = Some newCapacity"
    and nc: "sint newCapacity = R" by auto
  from start double_until_reaches [of "sint start" "sint minCapacity"] nc
  have mn: "sint minCapacity \<le> sint newCapacity" by simp
  with cm szc sz0 have nn: "0 \<le>s newCapacity" by (simp add: word_sle_eq)
  obtain p s1 ys where new: "new_array newCapacity s = Returned p s1" and o1: "objs s1 = objs s"
    and p0: "p \<noteq> 0" and pf: "buffer s p = None" and ly: "length ys = nat (sint newCapacity)"
    and b1: "\<And>q. buffer s1 q = (if q = p then Some ys else buffer s q)"
    by (rule new_array_Returned [OF nn, where s = s]) blast
  have "\<exists>s3 zs. andThen (ensureCapacity_for this p 0 s1) (\<lambda>_ s2. delete_array (data (objs s2 this)) s2)
                   = Returned () s3 \<and> objs s3 = objs s \<and> buffer s3 p = Some zs \<and>
                 length zs = nat (sint newCapacity) \<and> take (nat (sint sz)) zs = elements this s \<and>
                 (\<forall>q. q \<noteq> p \<longrightarrow> q \<noteq> old \<longrightarrow> buffer s3 q = buffer s q)"
  proof (cases "old = 0")
    case True
    with v have "cap = 0" by (simp add: valid_def cap_def old_def)
    with sz0 szc have "sz = 0" by (simp add: signed_eq_0_iff)
    then have "ensureCapacity_for this p 0 s1 = Returned () s1"
      by (subst ensureCapacity_for.simps) (simp add: o1 sz_def [symmetric])
    moreover have "elements this s = []"
      using True by (simp add: elements_def buffer_def old_def [symmetric])
    ultimately show ?thesis
      using True \<open>sz = 0\<close> by (simp add: o1 old_def [symmetric] delete_array_def b1 ly)
  next
    case False
    with v obtain xs where bx: "buffer s old = Some xs" and lx: "length xs = nat (sint cap)"
      by (auto simp: valid_def cap_def old_def split: option.splits)
    from bx pf have po: "p \<noteq> old" by auto
    have d1: "data (objs s1 this) = old" and z1: "size' (objs s1 this) = sz"
      by (simp_all add: o1 old_def sz_def)
    have bx1: "buffer s1 (data (objs s1 this)) = Some xs" and by1: "buffer s1 p = Some ys"
      using po bx by (simp_all add: b1 d1)
    have le1: "nat (sint (size' (objs s1 this))) \<le> length xs"
      and le2: "nat (sint (size' (objs s1 this))) \<le> length ys"
      using szc cm mn by (simp_all add: z1 lx ly)
    have i0: "(0::cint) \<le>s 0" "0 \<le>s size' (objs s1 this)"
      using sz0 by (simp_all add: word_sle_eq z1)
    from ensureCapacity_for_correct [OF bx1 by1 _ i0 le1 le2] po
    obtain s2 zs where loop: "ensureCapacity_for this p 0 s1 = Returned () s2"
      and o2: "objs s2 = objs s1" and bz: "buffer s2 p = Some zs" and lz: "length zs = length ys"
      and zk: "\<forall>k<length ys. zs ! k = (if k < nat (sint sz) then xs ! k else ys ! k)"
      and fr: "\<forall>q. q \<noteq> p \<longrightarrow> buffer s2 q = buffer s1 q"
      by (auto simp: d1 z1)
    from fr po bx have "buffer s2 old = Some xs" by (simp add: b1)
    then obtain s3 where del: "delete_array old s2 = Returned () s3" and o3: "objs s3 = objs s2"
      and b3: "\<And>q. buffer s3 q = (if q = old then None else buffer s2 q)"
      by (rule delete_array_Returned [where s = s2]) blast
    have "take (nat (sint sz)) zs = take (nat (sint sz)) xs"
    proof (rule nth_take_lemma)
      show "nat (sint sz) \<le> length zs" using le2 by (simp add: lz z1)
      show "nat (sint sz) \<le> length xs" using le1 by (simp add: z1)
      show "i < nat (sint sz) \<longrightarrow> zs ! i = xs ! i" for i
        using zk le2 by (simp add: z1)
    qed
    moreover have "elements this s = take (nat (sint sz)) xs"
      using bx by (simp add: elements_def old_def [symmetric] sz_def)
    moreover have "andThen (ensureCapacity_for this p 0 s1)
        (\<lambda>_ s2. delete_array (data (objs s2 this)) s2) = Returned () s3"
      using loop del by (simp add: o2 d1)
    moreover have "objs s3 = objs s" by (simp add: o3 o2 o1)
    moreover have "buffer s3 p = Some zs" using po bz by (simp add: b3)
    moreover have "length zs = nat (sint newCapacity)" by (simp add: lz ly)
    moreover have "\<forall>q. q \<noteq> p \<longrightarrow> q \<noteq> old \<longrightarrow> buffer s3 q = buffer s q"
      using fr by (simp add: b3 b1)
    ultimately show ?thesis by simp
  qed
  then obtain s3 zs where run: "andThen (ensureCapacity_for this p 0 s1)
        (\<lambda>_ s2. delete_array (data (objs s2 this)) s2) = Returned () s3"
    and o3: "objs s3 = objs s" and bz: "buffer s3 p = Some zs"
    and lz: "length zs = nat (sint newCapacity)"
    and el: "take (nat (sint sz)) zs = elements this s"
    and fr3: "\<forall>q. q \<noteq> p \<longrightarrow> q \<noteq> old \<longrightarrow> buffer s3 q = buffer s q"
    by blast
  let ?s' = "set_capacity this newCapacity (set_data this p s3)"
  from lt have "\<not> minCapacity \<le>s capacity (objs s this)"
    by (simp add: word_sless_alt word_sle_eq)
  then have nle: "(minCapacity \<le>s capacity (objs s this)) = False" by simp
  have w': "ensureCapacity_while
      (if 0 <s capacity (objs s this) then capacity (objs s this) * 2 else 1) minCapacity
      = Some newCapacity"
    using w by (simp only: start_def cap_def)
  have "ensureCapacity this minCapacity s =
      andThen (new_array newCapacity s) (\<lambda>newData s1.
      andThen (ensureCapacity_for this newData 0 s1) (\<lambda>_ s2.
      andThen (delete_array (data (objs s2 this)) s2) (\<lambda>_ s3.
      Returned () (set_capacity this newCapacity (set_data this newData s3)))))"
    by (simp only: ensureCapacity_def nle if_False w' option.case)
  also have "\<dots> = Returned () ?s'"
    using run by (cases "ensureCapacity_for this p 0 s1") (simp_all add: new)
  finally have "ensureCapacity this minCapacity s = Returned () ?s'" .
  moreover have "sint (capacity (objs ?s' this)) = R"
    by (simp add: set_capacity_def set_data_def nc)
  moreover have "size' (objs ?s' this) = sz"
    by (simp add: set_capacity_def set_data_def o3 sz_def)
  moreover have "elements this ?s' = elements this s"
    using bz el by (simp add: elements_def set_capacity_def set_data_def o3 sz_def)
  moreover have "valid this ?s'"
    using bz lz p0 sz0 szc cm mn
    by (simp add: valid_def set_capacity_def set_data_def o3 sz_def [symmetric] word_sle_eq)
  moreover have "\<forall>r. r \<noteq> this \<longrightarrow> objs ?s' r = objs s r"
    by (simp add: set_capacity_def set_data_def o3)
  moreover have "\<forall>q. q \<noteq> old \<longrightarrow> buffer s q \<noteq> None \<longrightarrow> buffer ?s' q = buffer s q"
  proof (intro allI impI)
    fix q assume q: "q \<noteq> old" "buffer s q \<noteq> None"
    with pf have "q \<noteq> p" by auto
    with fr3 q show "buffer ?s' q = buffer s q"
      by (simp add: set_capacity_def set_data_def)
  qed
  moreover have "buffer s (data (objs ?s' this)) = None"
    using pf by (simp add: set_capacity_def set_data_def)
  ultimately show ?thesis
    unfolding R_def cap_def sz_def old_def by blast
qed

section \<open>The loops of unshift and shift\<close>

text \<open>
  The loop of unshift moves the slots \<open>[0, i)\<close> one place up, from the top down; the loop
  of shift moves the slots \<open>[i, size)\<close> one place down, from the bottom up.
\<close>

lemma nat_sint_dec: "0 <s (i::cint) \<Longrightarrow> nat (sint (i - 1)) = nat (sint i) - 1 \<and> 0 \<le>s i - 1 \<and> 0 < nat (sint i)"
  using sint_dec [of i] by (simp add: word_sle_eq word_sless_alt nat_diff_distrib)

lemma unshift_for_correct:
  assumes "buffer s (data (objs s this)) = Some xs"
      and "0 \<le>s i" and "nat (sint i) < length xs"
  shows "\<exists>s' zs. unshift_for this i s = Returned () s' \<and> objs s' = objs s \<and>
           buffer s' (data (objs s this)) = Some zs \<and> length zs = length xs \<and>
           (\<forall>k<length xs. zs ! k = (if 1 \<le> k \<and> k \<le> nat (sint i) then xs ! (k - 1) else xs ! k)) \<and>
           (\<forall>q. q \<noteq> data (objs s this) \<longrightarrow> buffer s' q = buffer s q)"
  using assms
proof (induction this i s arbitrary: xs rule: unshift_for.induct)
  case (1 this i s)
  define j where "j = nat (sint i)"
  define p where "p = data (objs s this)"
  note bx = "1.prems"(1) [folded p_def]
  show ?case
  proof (cases "0 <s i")
    case False
    with "1.prems"(2) have "j = 0"
      by (simp add: j_def word_sless_alt word_sle_eq)
    with False "1.prems"(1) show ?thesis
      unfolding j_def [symmetric] by (subst unshift_for.simps) auto
  next
    case True
    from nat_sint_dec [OF True] have j1: "nat (sint (i - 1)) = j - 1" and i1: "0 \<le>s i - 1"
      and jpos: "0 < j"
      by (simp_all add: j_def)
    from "1.prems"(3) have jl: "j < length xs" by (simp add: j_def)
    with jpos have j1l: "nat (sint (i - 1)) < length xs" unfolding j1 by linarith
    have ld: "load p (i - 1) s = Some (xs ! (j - 1))"
      using load_Some [OF bx i1 j1l] by (simp only: j1)
    obtain s1 where st: "store p i (xs ! (j - 1)) s = Some s1" and o1: "objs s1 = objs s"
      and b1: "\<And>q. buffer s1 q = (if q = p then Some (xs[j := xs ! (j - 1)]) else buffer s q)"
      using store_Some [OF bx "1.prems"(2) "1.prems"(3)] unfolding j_def [symmetric] by metis
    have bx1: "buffer s1 (data (objs s1 this)) = Some (xs[j := xs ! (j - 1)])"
      by (simp add: o1 p_def [symmetric] b1)
    have l1: "nat (sint (i - 1)) < length (xs[j := xs ! (j - 1)])"
      using j1l by simp
    from "1.IH" [OF True ld [unfolded p_def] st [unfolded p_def] bx1 i1 l1]
    obtain s' zs where r: "unshift_for this (i - 1) s1 = Returned () s'"
      and o': "objs s' = objs s1" and b': "buffer s' p = Some zs"
      and l': "length zs = length xs"
      and z': "\<forall>k<length xs. zs ! k =
              (if 1 \<le> k \<and> k \<le> j - 1 then (xs[j := xs ! (j - 1)]) ! (k - 1)
               else (xs[j := xs ! (j - 1)]) ! k)"
      and f': "\<forall>q. q \<noteq> p \<longrightarrow> buffer s' q = buffer s1 q"
      unfolding j1 o1 p_def [symmetric] by auto
    have "unshift_for this i s = Returned () s'"
      using True ld st r by (subst unshift_for.simps) (simp add: p_def)
    moreover have "\<forall>k<length xs. zs ! k = (if 1 \<le> k \<and> k \<le> j then xs ! (k - 1) else xs ! k)"
    proof (intro allI impI)
      fix k assume k: "k < length xs"
      with z' have "zs ! k = (if 1 \<le> k \<and> k \<le> j - 1 then (xs[j := xs ! (j - 1)]) ! (k - 1)
               else (xs[j := xs ! (j - 1)]) ! k)" by blast
      then show "zs ! k = (if 1 \<le> k \<and> k \<le> j then xs ! (k - 1) else xs ! k)"
        using k jpos jl by (cases "k = j") (auto simp: nth_list_update)
    qed
    moreover have "\<forall>q. q \<noteq> p \<longrightarrow> buffer s' q = buffer s q"
      using f' by (simp add: b1)
    ultimately show ?thesis
      using o' o1 b' l' unfolding j_def p_def by auto
  qed
qed

lemma shift_for_correct:
  assumes "buffer s (data (objs s this)) = Some xs"
      and "0 <s i" and "i \<le>s size' (objs s this)"
      and "nat (sint (size' (objs s this))) \<le> length xs"
  shows "\<exists>s' zs. shift_for this i s = Returned () s' \<and> objs s' = objs s \<and>
           buffer s' (data (objs s this)) = Some zs \<and> length zs = length xs \<and>
           (\<forall>k<length xs. zs ! k =
              (if nat (sint i) - 1 \<le> k \<and> k < nat (sint (size' (objs s this))) - 1
               then xs ! (k + 1) else xs ! k))"
  using assms
proof (induction this i s arbitrary: xs rule: shift_for.induct)
  case (1 this i s)
  define j where "j = nat (sint i)"
  define n where "n = nat (sint (size' (objs s this)))"
  define p where "p = data (objs s this)"
  note bx = "1.prems"(1) [folded p_def]
  from "1.prems"(2) have i0: "0 \<le>s i" by (simp add: word_sle_eq word_sless_alt)
  from nat_sint_dec [OF "1.prems"(2)] have j1: "nat (sint (i - 1)) = j - 1" and i1: "0 \<le>s i - 1"
      and jpos: "0 < j"
      by (simp_all add: j_def)
  show ?case
  proof (cases "i <s size' (objs s this)")
    case False
    with "1.prems"(3) have "n \<le> j"
      by (simp add: j_def n_def word_sless_alt word_sle_eq)
    with False "1.prems"(1) show ?thesis
      unfolding j_def [symmetric] n_def [symmetric] by (subst shift_for.simps) auto
  next
    case True
    have jn: "j < n" and j': "nat (sint (i + 1)) = Suc j"
      using sint_nonneg_nat_less [OF i0 True] nat_sint_inc [OF i0 True]
      by (simp_all only: j_def n_def)
    from jn "1.prems"(4) have jl: "j < length xs" unfolding n_def by linarith
    have ld: "load p i s = Some (xs ! j)"
      using load_Some [OF bx i0 jl [unfolded j_def]] by (simp only: j_def)
    from jl jpos have j1l: "nat (sint (i - 1)) < length xs" unfolding j1 by linarith
    obtain s1 where st: "store p (i - 1) (xs ! j) s = Some s1" and o1: "objs s1 = objs s"
      and b1: "\<And>q. buffer s1 q = (if q = p then Some (xs[j - 1 := xs ! j]) else buffer s q)"
      using store_Some [OF bx i1 j1l] unfolding j1 by metis
    have bx1: "buffer s1 (data (objs s1 this)) = Some (xs[j - 1 := xs ! j])"
      by (simp add: o1 p_def [symmetric] b1)
    have p1: "0 <s i + 1" "i + 1 \<le>s size' (objs s1 this)"
      using True i0 sint_inc [OF True] by (simp_all add: word_sle_eq word_sless_alt o1)
    have l1: "nat (sint (size' (objs s1 this))) \<le> length (xs[j - 1 := xs ! j])"
      using "1.prems"(4) by (simp add: o1)
    from "1.IH" [OF True ld [unfolded p_def] st [unfolded p_def] bx1 p1 l1]
    obtain s' zs where r: "shift_for this (i + 1) s1 = Returned () s'"
      and o': "objs s' = objs s1" and b': "buffer s' p = Some zs"
      and l': "length zs = length xs"
      and z': "\<forall>k<length xs. zs ! k =
              (if Suc j - 1 \<le> k \<and> k < n - 1 then (xs[j - 1 := xs ! j]) ! (k + 1)
               else (xs[j - 1 := xs ! j]) ! k)"
      unfolding j' o1 p_def [symmetric] n_def [symmetric] by auto
    have "shift_for this i s = Returned () s'"
      using True ld st r by (subst shift_for.simps) (simp add: p_def)
    moreover have "\<forall>k<length xs. zs ! k = (if j - 1 \<le> k \<and> k < n - 1 then xs ! (k + 1) else xs ! k)"
    proof (intro allI impI)
      fix k assume k: "k < length xs"
      with z' have "zs ! k = (if Suc j - 1 \<le> k \<and> k < n - 1 then (xs[j - 1 := xs ! j]) ! (k + 1)
               else (xs[j - 1 := xs ! j]) ! k)" by blast
      then show "zs ! k = (if j - 1 \<le> k \<and> k < n - 1 then xs ! (k + 1) else xs ! k)"
        using k jpos jl jn by (cases "k = j - 1") (auto simp: nth_list_update)
    qed
    ultimately show ?thesis
      using o' o1 b' l' unfolding j_def p_def n_def by auto
  qed
qed

section \<open>The operations on a valid container\<close>

lemma sint_inc_lt: "sint (i::cint) < 2 ^ 31 - 1 \<Longrightarrow> sint (i + 1) = sint i + 1"
  using sint_ge [of i]
  by (simp add: sint_word_ariths signed_take_bit_int_eq_self)

lemma spec_newCapacity_succ:
  "0 \<le> c \<Longrightarrow> spec_newCapacity c (c + 1) = (if 0 < c then 2 * c else 1)"
  by (simp add: spec_newCapacity_def double_until.simps [of c "c + 1"]
        double_until.simps [of "2 * c" "c + 1"] double_until.simps [of 1 1])

lemma valid_buffer:
  assumes "valid this s" and "0 <s capacity (objs s this)"
  obtains xs where "buffer s (data (objs s this)) = Some xs"
    and "length xs = nat (sint (capacity (objs s this)))"
  using assms by (auto simp: valid_def split: if_splits option.splits)

text \<open>What follows the call of ensureCapacity in push, on a container with a free slot.\<close>

lemma push_store:
  assumes v: "valid this s" and room: "size' (objs s this) <s capacity (objs s this)"
  shows "\<exists>s'. (case store (data (objs s this)) (size' (objs s this)) val s of
                 None \<Rightarrow> Undefined
               | Some s2 \<Rightarrow> Returned () (set_size this (size' (objs s2 this) + 1) s2))
               = Returned () s' \<and>
             valid this s' \<and> elements this s' = elements this s @ [val] \<and>
             sint (size' (objs s' this)) = sint (size' (objs s this)) + 1 \<and>
             capacity (objs s' this) = capacity (objs s this) \<and>
             (\<forall>r. r \<noteq> this \<longrightarrow> objs s' r = objs s r)"
proof -
  define sz cap p where "sz = size' (objs s this)" and "cap = capacity (objs s this)"
    and "p = data (objs s this)"
  define n where "n = nat (sint sz)"
  from v have sz0: "0 \<le>s sz" by (simp add: valid_def sz_def)
  then have sz0': "0 \<le> sint sz" by (simp add: word_sle_eq)
  from room have lt: "sint sz < sint cap" by (simp add: word_sless_alt sz_def cap_def)
  with sz0' have "0 <s capacity (objs s this)" by (simp add: word_sless_alt cap_def)
  from valid_buffer [OF v this]
  obtain xs where bx: "buffer s p = Some xs" and lx: "length xs = nat (sint cap)"
    unfolding p_def cap_def by blast
  from lt sz0' have nl: "n < length xs" by (simp add: lx n_def)
  obtain s2 where st: "store p sz val s = Some s2" and o2: "objs s2 = objs s"
    and b2: "\<And>q. buffer s2 q = (if q = p then Some (xs[n := val]) else buffer s q)"
    using store_Some [OF bx sz0 nl [unfolded n_def]] unfolding n_def [symmetric] by metis
  let ?s' = "set_size this (sz + 1) s2"
  from room have inc: "sint (sz + 1) = sint sz + 1" unfolding sz_def by (rule sint_inc)
  have "(case store (data (objs s this)) (size' (objs s this)) val s of
                 None \<Rightarrow> Undefined
               | Some s2 \<Rightarrow> Returned () (set_size this (size' (objs s2 this) + 1) s2))
        = Returned () ?s'"
    using st by (simp add: p_def [symmetric] sz_def [symmetric] o2)
  moreover have "valid this ?s'"
    using sz0' lt inc bx
    by (simp add: valid_def set_size_def o2 p_def [symmetric] cap_def [symmetric] b2 lx
          word_sle_eq buffer_nonzero)
  moreover have "elements this ?s' = elements this s @ [val]"
    using bx nl sz0'
    by (simp add: elements_def set_size_def o2 p_def [symmetric] sz_def [symmetric] b2 inc
          nat_add_distrib n_def [symmetric] take_Suc_conv_app_nth)
  moreover have "sint (size' (objs ?s' this)) = sint sz + 1"
    by (simp add: set_size_def inc)
  moreover have "capacity (objs ?s' this) = cap"
    by (simp add: set_size_def o2 cap_def)
  moreover have "\<forall>r. r \<noteq> this \<longrightarrow> objs ?s' r = objs s r"
    by (simp add: set_size_def o2)
  ultimately show ?thesis unfolding sz_def cap_def by blast
qed

text \<open>The call \<open>ensureCapacity(size + 1)\<close> of push and unshift.\<close>

lemma ensureCapacity_succ:
  assumes v: "valid this s"
      and room: "size' (objs s this) <s capacity (objs s this) \<or> sint (capacity (objs s this)) < 2 ^ 30"
  shows "\<exists>s'. ensureCapacity this (size' (objs s this) + 1) s = Returned () s' \<and>
      valid this s' \<and> size' (objs s' this) = size' (objs s this) \<and>
      size' (objs s' this) <s capacity (objs s' this) \<and>
      elements this s' = elements this s \<and>
      sint (capacity (objs s' this)) =
        (if size' (objs s this) <s capacity (objs s this) then sint (capacity (objs s this))
         else spec_newCapacity (sint (capacity (objs s this))) (sint (size' (objs s this)) + 1)) \<and>
      (\<forall>r. r \<noteq> this \<longrightarrow> objs s' r = objs s r) \<and>
      (size' (objs s this) <s capacity (objs s this) \<longrightarrow> s' = s) \<and>
      (\<forall>q. q \<noteq> data (objs s this) \<longrightarrow> buffer s q \<noteq> None \<longrightarrow> buffer s' q = buffer s q) \<and>
      (data (objs s' this) = data (objs s this) \<or> buffer s (data (objs s' this)) = None)"
proof (cases "size' (objs s this) <s capacity (objs s this)")
  case True
  from sint_inc [OF True] True
  have "size' (objs s this) + 1 \<le>s capacity (objs s this)"
    by (simp add: word_sle_eq word_sless_alt)
  from ensureCapacity_noop [OF this] v True show ?thesis by simp
next
  case False
  define sz cap where "sz = size' (objs s this)" and "cap = capacity (objs s this)"
  from v have sz0: "0 \<le> sint sz" and szc: "sint sz \<le> sint cap"
    by (simp_all add: valid_def word_sle_eq sz_def cap_def)
  with False have eq: "sint sz = sint cap" by (simp add: word_sless_alt sz_def cap_def)
  from False room have small: "sint cap < 2 ^ 30" by (simp add: cap_def)
  with eq have inc: "sint (sz + 1) = sint sz + 1" by (simp add: sint_inc_lt)
  with eq have lt: "capacity (objs s this) <s size' (objs s this) + 1"
    by (simp add: word_sless_alt sz_def cap_def)
  have R: "spec_newCapacity (sint cap) (sint (sz + 1)) = (if 0 < sint cap then 2 * sint cap else 1)"
    using sz0 eq inc spec_newCapacity_succ [of "sint cap"] by simp
  with small have rep: "spec_newCapacity (sint (capacity (objs s this)))
      (sint (size' (objs s this) + 1)) < 2 ^ 31"
    by (simp add: sz_def cap_def)
  from ensureCapacity_grow [OF v lt rep]
  obtain s' where "ensureCapacity this (size' (objs s this) + 1) s = Returned () s'"
    and "sint (capacity (objs s' this)) = spec_newCapacity (sint cap) (sint (sz + 1))"
    and "size' (objs s' this) = sz" "elements this s' = elements this s" "valid this s'"
    and "\<forall>r. r \<noteq> this \<longrightarrow> objs s' r = objs s r"
    and "\<forall>q. q \<noteq> data (objs s this) \<longrightarrow> buffer s q \<noteq> None \<longrightarrow> buffer s' q = buffer s q"
    and "buffer s (data (objs s' this)) = None"
    unfolding sz_def cap_def by blast
  moreover from this(2) R sz0 eq have "sz <s capacity (objs s' this)"
    by (simp add: word_sless_alt split: if_splits)
  ultimately show ?thesis
    using False inc unfolding sz_def cap_def by auto
qed

lemma andThen_Returned:
  "m = Returned r s1 \<Longrightarrow> f r s1 = res \<Longrightarrow> andThen m f = res"
  by simp

lemma load_buffer: "buffer s' p = buffer s p \<Longrightarrow> load p i s' = load p i s"
  by (simp add: load_def)

lemma load_live: "load p i s = Some v \<Longrightarrow> buffer s p \<noteq> None"
  by (auto simp: load_def split: option.splits)

text \<open>
  A reference that does not point into the container's buffer holds its value as long
  as the other live buffers are left alone.
\<close>

lemma deref_outside:
  assumes "deref val s = Some v" and "outside this s val"
      and "\<forall>q. q \<noteq> data (objs s this) \<longrightarrow> buffer s q \<noteq> None \<longrightarrow> buffer s' q = buffer s q"
  shows "deref val s' = Some v"
proof (cases val)
  case (Object x)
  with assms(1) show ?thesis by simp
next
  case (Element p i)
  with assms(1,2) have "load p i s = Some v" "p \<noteq> data (objs s this)" by simp_all
  with assms(3) load_live [of p i s v] have "buffer s' p = buffer s p" by simp
  from load_buffer [OF this] \<open>load p i s = Some v\<close> Element show ?thesis by simp
qed

lemma outside_fresh:
  assumes "deref val s = Some v" and "outside this s val"
      and "data (objs s' this) = data (objs s this) \<or> buffer s (data (objs s' this)) = None"
  shows "outside this s' val"
proof (cases val)
  case (Object x)
  then show ?thesis by simp
next
  case (Element p i)
  with assms(1,2) have "load p i s = Some v" "p \<noteq> data (objs s this)" by simp_all
  with assms(3) load_live [of p i s v] Element show ?thesis by auto
qed

lemma push_spec:
  assumes v: "valid this s"
      and room: "size' (objs s this) <s capacity (objs s this) \<or> sint (capacity (objs s this)) < 2 ^ 30"
      and dr: "deref val s = Some x"
      and al: "outside this s val \<or> size' (objs s this) <s capacity (objs s this)"
  shows "\<exists>s'. push this val s = Returned () s' \<and>
      valid this s' \<and> elements this s' = elements this s @ [x] \<and>
      sint (size' (objs s' this)) = sint (size' (objs s this)) + 1 \<and>
      sint (capacity (objs s' this)) =
        (if size' (objs s this) <s capacity (objs s this) then sint (capacity (objs s this))
         else spec_newCapacity (sint (capacity (objs s this))) (sint (size' (objs s this)) + 1)) \<and>
      (\<forall>r. r \<noteq> this \<longrightarrow> objs s' r = objs s r)"
proof -
  from ensureCapacity_succ [OF v room]
  obtain s1 where e: "ensureCapacity this (size' (objs s this) + 1) s = Returned () s1"
    and v1: "valid this s1" and z1: "size' (objs s1 this) = size' (objs s this)"
    and r1: "size' (objs s1 this) <s capacity (objs s1 this)"
    and e1: "elements this s1 = elements this s"
    and c1: "sint (capacity (objs s1 this)) =
        (if size' (objs s this) <s capacity (objs s this) then sint (capacity (objs s this))
         else spec_newCapacity (sint (capacity (objs s this))) (sint (size' (objs s this)) + 1))"
    and f1: "\<forall>r. r \<noteq> this \<longrightarrow> objs s1 r = objs s r"
    and same: "size' (objs s this) <s capacity (objs s this) \<longrightarrow> s1 = s"
    and fr: "\<forall>q. q \<noteq> data (objs s this) \<longrightarrow> buffer s q \<noteq> None \<longrightarrow> buffer s1 q = buffer s q"
    by blast
  have d1: "deref val s1 = Some x"
  proof (cases "size' (objs s this) <s capacity (objs s this)")
    case True
    with same dr show ?thesis by simp
  next
    case False
    with al have "outside this s val" by simp
    from deref_outside [OF dr this fr] show ?thesis .
  qed
  from push_store [OF v1 r1, of x]
  obtain s' where st: "(case store (data (objs s1 this)) (size' (objs s1 this)) x s1 of
                 None \<Rightarrow> Undefined
               | Some s2 \<Rightarrow> Returned () (set_size this (size' (objs s2 this) + 1) s2))
               = Returned () s'"
    and "valid this s'" "elements this s' = elements this s1 @ [x]"
    and "sint (size' (objs s' this)) = sint (size' (objs s1 this)) + 1"
    and "capacity (objs s' this) = capacity (objs s1 this)"
    and "\<forall>r. r \<noteq> this \<longrightarrow> objs s' r = objs s1 r"
    by blast
  moreover have "push this val s = Returned () s'"
    unfolding push_def by (rule andThen_Returned [OF e]) (simp add: d1 st)
  ultimately show ?thesis
    using z1 e1 c1 f1 by auto
qed

lemma objs_set_size:
  "objs (set_size this n s) r = (if r = this then (objs s this)\<lparr>size' := n\<rparr> else objs s r)"
  by (simp add: set_size_def)

lemma objs_set_data:
  "objs (set_data this p s) r = (if r = this then (objs s this)\<lparr>data := p\<rparr> else objs s r)"
  by (simp add: set_data_def)

lemma objs_set_capacity:
  "objs (set_capacity this n s) r = (if r = this then (objs s this)\<lparr>capacity := n\<rparr> else objs s r)"
  by (simp add: set_capacity_def)

lemma buffer_set_size: "buffer (set_size this n s) = buffer s"
  by (rule ext) (simp add: set_size_def)

lemma buffer_set_data: "buffer (set_data this p s) = buffer s"
  by (rule ext) (simp add: set_data_def)

lemma buffer_set_capacity: "buffer (set_capacity this n s) = buffer s"
  by (rule ext) (simp add: set_capacity_def)

lemmas set_simps = objs_set_size objs_set_data objs_set_capacity
  buffer_set_size buffer_set_data buffer_set_capacity

lemma valid_set_size:
  "valid this s \<Longrightarrow> 0 \<le>s n \<Longrightarrow> n \<le>s capacity (objs s this) \<Longrightarrow> valid this (set_size this n s)"
  by (simp add: valid_def set_simps)

lemma pop_spec:
  assumes v: "valid this s" and ne: "size' (objs s this) \<noteq> 0"
  shows "\<exists>s'. pop this s = Returned (last (elements this s)) s' \<and>
      valid this s' \<and> elements this s' = butlast (elements this s) \<and>
      sint (size' (objs s' this)) = sint (size' (objs s this)) - 1 \<and>
      capacity (objs s' this) = capacity (objs s this) \<and>
      (\<forall>r. r \<noteq> this \<longrightarrow> objs s' r = objs s r)"
proof -
  define sz cap p where "sz = size' (objs s this)" and "cap = capacity (objs s this)"
    and "p = data (objs s this)"
  define n where "n = nat (sint sz)"
  from v have sz0: "0 \<le> sint sz" and szc: "sint sz \<le> sint cap"
    by (simp_all add: valid_def word_sle_eq sz_def cap_def)
  from ne sz0 have pos: "0 <s sz"
    by (simp add: word_sless_alt sz_def signed_eq_0_iff order_less_le)
  from nat_sint_dec [OF pos] have d: "nat (sint (sz - 1)) = n - 1" and d0: "0 \<le>s sz - 1"
    and npos: "0 < n"
    by (simp_all add: n_def)
  from pos szc have "0 <s capacity (objs s this)" by (simp add: word_sless_alt cap_def)
  from valid_buffer [OF v this]
  obtain xs where bx: "buffer s p = Some xs" and lx: "length xs = nat (sint cap)"
    unfolding p_def cap_def by blast
  from szc have nl: "n \<le> length xs" by (simp add: lx n_def)
  let ?s' = "set_size this (sz - 1) s"
  have bx': "buffer ?s' p = Some xs" using bx by (simp add: set_size_def)
  from npos nl have "nat (sint (sz - 1)) < length xs" unfolding d by linarith
  from load_Some [OF bx' d0 this] have ld: "load p (sz - 1) ?s' = Some (xs ! (n - 1))"
    by (simp only: d)
  have el: "elements this s = take n xs"
    using bx by (simp add: elements_def p_def [symmetric] sz_def [symmetric] n_def)
  have "last (take n xs) = xs ! (n - 1)"
    using npos nl by (cases n) (simp_all add: take_Suc_conv_app_nth)
  with ld have "pop this s = Returned (last (elements this s)) ?s'"
    using ne by (simp add: pop_def Let_def sz_def [symmetric] set_size_def p_def [symmetric] el)
  moreover have "valid this ?s'"
  proof (rule valid_set_size [OF v d0])
    show "sz - 1 \<le>s capacity (objs s this)"
      using szc sint_dec [OF pos] by (simp add: word_sle_eq cap_def)
  qed
  moreover have "elements this ?s' = butlast (elements this s)"
  proof -
    have "elements this ?s' = take (n - 1) xs"
      using bx by (simp add: elements_def set_simps p_def [symmetric] d)
    also have "\<dots> = butlast (take n xs)"
      using nl by (simp add: butlast_take)
    finally show ?thesis by (simp only: el)
  qed
  moreover have "sint (size' (objs ?s' this)) = sint sz - 1"
    using sint_dec [OF pos] by (simp add: set_size_def)
  moreover have "capacity (objs ?s' this) = cap"
    by (simp add: set_size_def cap_def)
  moreover have "\<forall>r. r \<noteq> this \<longrightarrow> objs ?s' r = objs s r"
    by (simp add: set_size_def)
  ultimately show ?thesis unfolding sz_def cap_def by blast
qed

text \<open>What follows the call of ensureCapacity in unshift, on a container with a free slot.\<close>

lemma unshift_store:
  assumes v: "valid this s" and room: "size' (objs s this) <s capacity (objs s this)"
      and dr: "deref val s = Some x"
      and al: "outside this s val \<or> val = Element (data (objs s this)) 0"
  shows "\<exists>s'. andThen (unshift_for this (size' (objs s this)) s) (\<lambda>_ s2.
               case deref val s2 of
                 None \<Rightarrow> Undefined
               | Some v \<Rightarrow>
                   (case store (data (objs s2 this)) 0 v s2 of
                      None \<Rightarrow> Undefined
                    | Some s3 \<Rightarrow> Returned () (set_size this (size' (objs s3 this) + 1) s3)))
               = Returned () s' \<and>
             valid this s' \<and> elements this s' = x # elements this s \<and>
             sint (size' (objs s' this)) = sint (size' (objs s this)) + 1 \<and>
             capacity (objs s' this) = capacity (objs s this) \<and>
             (\<forall>r. r \<noteq> this \<longrightarrow> objs s' r = objs s r)"
proof -
  define sz cap p where "sz = size' (objs s this)" and "cap = capacity (objs s this)"
    and "p = data (objs s this)"
  define n where "n = nat (sint sz)"
  from v have sz0: "0 \<le>s sz" by (simp add: valid_def sz_def)
  then have sz0': "0 \<le> sint sz" by (simp add: word_sle_eq)
  from room have lt: "sint sz < sint cap" by (simp add: word_sless_alt sz_def cap_def)
  with sz0' have "0 <s capacity (objs s this)" by (simp add: word_sless_alt cap_def)
  from valid_buffer [OF v this]
  obtain xs where bx: "buffer s p = Some xs" and lx: "length xs = nat (sint cap)"
    unfolding p_def cap_def by blast
  from lt sz0' have nl: "n < length xs" by (simp add: lx n_def)
  from unshift_for_correct [OF bx [unfolded p_def] sz0 nl [unfolded n_def]]
  obtain s2 zs where loop: "unshift_for this sz s = Returned () s2" and o2: "objs s2 = objs s"
    and bz: "buffer s2 p = Some zs" and lz: "length zs = length xs"
    and zk: "\<forall>k<length xs. zs ! k = (if 1 \<le> k \<and> k \<le> n then xs ! (k - 1) else xs ! k)"
    and f2: "\<forall>q. q \<noteq> p \<longrightarrow> buffer s2 q = buffer s q"
    unfolding p_def [symmetric] n_def [symmetric] by blast
  have d2: "deref val s2 = Some x"
  proof (cases "outside this s val")
    case True
    from f2 have "\<forall>q. q \<noteq> data (objs s this) \<longrightarrow> buffer s q \<noteq> None \<longrightarrow> buffer s2 q = buffer s q"
      by (simp add: p_def)
    from deref_outside [OF dr True this] show ?thesis .
  next
    case False
    with al have val: "val = Element p 0" by (simp add: p_def)
    from nl have "0 < length xs" by auto
    with dr bx have "x = xs ! 0" by (simp add: val load_def word_sle_eq)
    moreover from zk \<open>0 < length xs\<close> have "zs ! 0 = xs ! 0" by simp
    ultimately show ?thesis
      using bz lz \<open>0 < length xs\<close> by (simp add: val load_def word_sle_eq)
  qed
  have z0: "(0::cint) \<le>s 0" by (simp add: word_sle_eq)
  from nl lz have "nat (sint (0::cint)) < length zs" by auto
  from store_Some [OF bz z0 this]
  obtain s3 where st: "store p 0 x s2 = Some s3" and o3: "objs s3 = objs s2"
    and b3: "\<And>q. buffer s3 q = (if q = p then Some (zs[0 := x]) else buffer s2 q)"
    by (metis sint_0 nat_0)
  let ?s' = "set_size this (sz + 1) s3"
  from room have inc: "sint (sz + 1) = sint sz + 1" unfolding sz_def by (rule sint_inc)
  have "andThen (unshift_for this (size' (objs s this)) s) (\<lambda>_ s2.
               case deref val s2 of
                 None \<Rightarrow> Undefined
               | Some v \<Rightarrow>
                   (case store (data (objs s2 this)) 0 v s2 of
                      None \<Rightarrow> Undefined
                    | Some s3 \<Rightarrow> Returned () (set_size this (size' (objs s3 this) + 1) s3)))
        = Returned () ?s'"
    using loop st d2 by (simp add: sz_def [symmetric] o2 o3 p_def [symmetric])
  moreover have "valid this ?s'"
    using sz0' lt inc buffer_nonzero [OF bx]
    by (simp add: valid_def set_simps o3 o2 p_def [symmetric] cap_def [symmetric] b3 lz lx
          word_sle_eq)
  moreover have "elements this ?s' = x # elements this s"
  proof -
    have "elements this ?s' = take (Suc n) (zs[0 := x])"
      using sz0' by (simp add: elements_def set_simps o3 o2 p_def [symmetric] b3 inc
          nat_add_distrib n_def)
    also have "\<dots> = x # take n xs"
    proof (rule nth_equalityI)
      show "length (take (Suc n) (zs[0 := x])) = length (x # take n xs)"
        using nl lz by simp
      fix i assume "i < length (take (Suc n) (zs[0 := x]))"
      with nl lz have i: "i < Suc n" by simp
      from nl lz have "0 < length zs" by auto
      with i zk nl lz show "take (Suc n) (zs[0 := x]) ! i = (x # take n xs) ! i"
        by (cases i) simp_all
    qed
    also have "take n xs = elements this s"
      using bx by (simp add: elements_def p_def [symmetric] sz_def [symmetric] n_def)
    finally show ?thesis .
  qed
  moreover have "sint (size' (objs ?s' this)) = sint sz + 1"
    by (simp add: set_simps inc)
  moreover have "capacity (objs ?s' this) = cap"
    by (simp add: set_simps o3 o2 cap_def)
  moreover have "\<forall>r. r \<noteq> this \<longrightarrow> objs ?s' r = objs s r"
    by (simp add: set_simps o3 o2)
  ultimately show ?thesis unfolding sz_def cap_def by blast
qed

lemma unshift_spec:
  assumes v: "valid this s"
      and room: "size' (objs s this) <s capacity (objs s this) \<or> sint (capacity (objs s this)) < 2 ^ 30"
      and dr: "deref val s = Some x"
      and al: "outside this s val \<or>
               (size' (objs s this) <s capacity (objs s this) \<and> val = Element (data (objs s this)) 0)"
  shows "\<exists>s'. unshift this val s = Returned () s' \<and>
      valid this s' \<and> elements this s' = x # elements this s \<and>
      sint (size' (objs s' this)) = sint (size' (objs s this)) + 1 \<and>
      sint (capacity (objs s' this)) =
        (if size' (objs s this) <s capacity (objs s this) then sint (capacity (objs s this))
         else spec_newCapacity (sint (capacity (objs s this))) (sint (size' (objs s this)) + 1)) \<and>
      (\<forall>r. r \<noteq> this \<longrightarrow> objs s' r = objs s r)"
proof -
  from ensureCapacity_succ [OF v room]
  obtain s1 where e: "ensureCapacity this (size' (objs s this) + 1) s = Returned () s1"
    and v1: "valid this s1" and z1: "size' (objs s1 this) = size' (objs s this)"
    and r1: "size' (objs s1 this) <s capacity (objs s1 this)"
    and e1: "elements this s1 = elements this s"
    and c1: "sint (capacity (objs s1 this)) =
        (if size' (objs s this) <s capacity (objs s this) then sint (capacity (objs s this))
         else spec_newCapacity (sint (capacity (objs s this))) (sint (size' (objs s this)) + 1))"
    and f1: "\<forall>r. r \<noteq> this \<longrightarrow> objs s1 r = objs s r"
    and same: "size' (objs s this) <s capacity (objs s this) \<longrightarrow> s1 = s"
    and fr: "\<forall>q. q \<noteq> data (objs s this) \<longrightarrow> buffer s q \<noteq> None \<longrightarrow> buffer s1 q = buffer s q"
    and dp: "data (objs s1 this) = data (objs s this) \<or> buffer s (data (objs s1 this)) = None"
    by blast
  have d1: "deref val s1 = Some x \<and>
      (outside this s1 val \<or> val = Element (data (objs s1 this)) 0)"
  proof (cases "outside this s val")
    case True
    from deref_outside [OF dr True fr] outside_fresh [OF dr True dp] show ?thesis by simp
  next
    case False
    with al same have "s1 = s" by simp
    with al dr show ?thesis by auto
  qed
  from unshift_store [OF v1 r1 d1 [THEN conjunct1] d1 [THEN conjunct2]]
  obtain s' where "andThen (unshift_for this (size' (objs s1 this)) s1) (\<lambda>_ s2.
               case deref val s2 of
                 None \<Rightarrow> Undefined
               | Some v \<Rightarrow>
                   (case store (data (objs s2 this)) 0 v s2 of
                      None \<Rightarrow> Undefined
                    | Some s3 \<Rightarrow> Returned () (set_size this (size' (objs s3 this) + 1) s3)))
               = Returned () s'"
    and "valid this s'" "elements this s' = x # elements this s1"
    and "sint (size' (objs s' this)) = sint (size' (objs s1 this)) + 1"
    and "capacity (objs s' this) = capacity (objs s1 this)"
    and "\<forall>r. r \<noteq> this \<longrightarrow> objs s' r = objs s1 r"
    by blast
  moreover from this(1) have "unshift this val s = Returned () s'"
    unfolding unshift_def by (rule andThen_Returned [OF e])
  ultimately show ?thesis
    using z1 e1 c1 f1 by auto
qed

lemma shift_spec:
  assumes v: "valid this s" and ne: "size' (objs s this) \<noteq> 0"
  shows "\<exists>s'. shift this s = Returned (hd (elements this s)) s' \<and>
      valid this s' \<and> elements this s' = tl (elements this s) \<and>
      sint (size' (objs s' this)) = sint (size' (objs s this)) - 1 \<and>
      capacity (objs s' this) = capacity (objs s this) \<and>
      (\<forall>r. r \<noteq> this \<longrightarrow> objs s' r = objs s r)"
proof -
  define sz cap p where "sz = size' (objs s this)" and "cap = capacity (objs s this)"
    and "p = data (objs s this)"
  define n where "n = nat (sint sz)"
  from v have sz0: "0 \<le> sint sz" and szc: "sint sz \<le> sint cap"
    by (simp_all add: valid_def word_sle_eq sz_def cap_def)
  from ne sz0 have pos: "0 <s sz"
    by (simp add: word_sless_alt sz_def signed_eq_0_iff order_less_le)
  from nat_sint_dec [OF pos] have d: "nat (sint (sz - 1)) = n - 1" and d0: "0 \<le>s sz - 1"
    and npos: "0 < n"
    by (simp_all add: n_def)
  from pos szc have "0 <s capacity (objs s this)" by (simp add: word_sless_alt cap_def)
  from valid_buffer [OF v this]
  obtain xs where bx: "buffer s p = Some xs" and lx: "length xs = nat (sint cap)"
    unfolding p_def cap_def by blast
  from szc have nl: "n \<le> length xs" by (simp add: lx n_def)
  have el: "elements this s = take n xs"
    using bx by (simp add: elements_def p_def [symmetric] sz_def [symmetric] n_def)
  have z0: "(0::cint) \<le>s 0" by (simp add: word_sle_eq)
  from npos nl have "nat (sint (0::cint)) < length xs" by auto
  from load_Some [OF bx z0 this] have ld: "load p 0 s = Some (xs ! 0)" by simp
  have one: "(0::cint) <s 1" "(1::cint) \<le>s size' (objs s this)" "nat (sint (1::cint)) = 1"
    using pos by (simp_all add: word_sless_alt word_sle_eq sz_def)
  from shift_for_correct [OF bx [unfolded p_def] one(1,2)] nl
  obtain s1 zs where loop: "shift_for this 1 s = Returned () s1" and o1: "objs s1 = objs s"
    and bz: "buffer s1 p = Some zs" and lz: "length zs = length xs"
    and zk: "\<forall>k<length xs. zs ! k = (if k < n - 1 then xs ! (k + 1) else xs ! k)"
    unfolding p_def [symmetric] sz_def [symmetric] n_def [symmetric] one(3) by auto
  let ?s' = "set_size this (sz - 1) s1"
  have "hd (take n xs) = xs ! 0"
    using npos nl by (cases xs; cases n) simp_all
  with ld loop have "shift this s = Returned (hd (elements this s)) ?s'"
    using ne by (simp add: shift_def sz_def [symmetric] p_def [symmetric] el o1)
  moreover have "valid this ?s'"
    using v sz0 szc sint_dec [OF pos] d0 bz lz lx buffer_nonzero [OF bx]
    by (simp add: valid_def set_simps o1 p_def [symmetric] cap_def [symmetric]
          sz_def [symmetric] word_sle_eq)
  moreover have "elements this ?s' = tl (elements this s)"
  proof -
    have "elements this ?s' = take (n - 1) zs"
      using bz by (simp add: elements_def set_simps o1 p_def [symmetric] d)
    also have "\<dots> = tl (take n xs)"
    proof (rule nth_equalityI)
      show "length (take (n - 1) zs) = length (tl (take n xs))"
        using nl lz by simp
      fix i assume "i < length (take (n - 1) zs)"
      with nl lz have i: "i < n - 1" by simp
      with zk nl lz show "take (n - 1) zs ! i = tl (take n xs) ! i"
        by (simp add: nth_tl)
    qed
    finally show ?thesis by (simp only: el)
  qed
  moreover have "sint (size' (objs ?s' this)) = sint sz - 1"
    using sint_dec [OF pos] by (simp add: set_simps)
  moreover have "capacity (objs ?s' this) = cap"
    by (simp add: set_simps o1 cap_def)
  moreover have "\<forall>r. r \<noteq> this \<longrightarrow> objs ?s' r = objs s r"
    by (simp add: set_simps o1)
  ultimately show ?thesis unfolding sz_def cap_def by blast
qed

section \<open>Search, construction and runs of statements\<close>

lemma length_elements:
  "valid this s \<Longrightarrow> int (length (elements this s)) = sint (size' (objs s this))"
  by (auto simp: valid_def elements_def word_sle_eq buffer_def signed_eq_0_iff
      split: if_splits option.splits)

lemma valid_load:
  assumes v: "valid this s" and i0: "0 \<le>s i" and lt: "i <s size' (objs s this)"
  shows "load (data (objs s this)) i s = Some (elements this s ! nat (sint i))"
proof -
  from v i0 lt have "0 <s capacity (objs s this)"
    by (simp add: valid_def word_sle_eq word_sless_alt)
  from valid_buffer [OF v this]
  obtain xs where bx: "buffer s (data (objs s this)) = Some xs"
    and lx: "length xs = nat (sint (capacity (objs s this)))" by blast
  from v i0 lt have "0 \<le> sint i" "sint i < sint (size' (objs s this))"
    "sint (size' (objs s this)) \<le> sint (capacity (objs s this))"
    by (simp_all add: valid_def word_sle_eq word_sless_alt)
  then have j: "nat (sint i) < nat (sint (size' (objs s this)))"
    and n: "nat (sint (size' (objs s this))) \<le> length xs"
    unfolding lx by linarith+
  then have "nat (sint i) < length xs" by linarith
  from load_Some [OF bx i0 this] bx j show ?thesis
    by (simp add: elements_def)
qed

lemma findIndex_for_spec:
  assumes "valid this s" and "0 \<le>s i" and "i \<le>s size' (objs s this)"
  shows "findIndex_for this pred i s =
           Returned (if \<exists>x \<in> set (drop (nat (sint i)) (elements this s)). pred x
                     then i + of_nat (length (takeWhile (\<lambda>x. \<not> pred x)
                                                (drop (nat (sint i)) (elements this s))))
                     else - 1) s"
  using assms
proof (induction this pred i s rule: findIndex_for.induct)
  case (1 this pred i s)
  define els where "els = elements this s"
  define j where "j = nat (sint i)"
  have len: "int (length els) = sint (size' (objs s this))"
    unfolding els_def by (rule length_elements [OF "1.prems"(1)])
  show ?case
  proof (cases "i <s size' (objs s this)")
    case False
    with "1.prems"(3) len have "length els \<le> j"
      by (simp add: j_def word_sless_alt word_sle_eq)
    with False show ?thesis
      unfolding els_def [symmetric] j_def [symmetric]
      by (subst findIndex_for.simps) simp
  next
    case True
    from True "1.prems"(2) len have jl: "j < length els"
      by (simp add: j_def word_sless_alt word_sle_eq)
    have ld: "load (data (objs s this)) i s = Some (els ! j)"
      unfolding els_def j_def by (rule valid_load [OF "1.prems"(1,2) True])
    have dr: "drop j els = els ! j # drop (Suc j) els"
      using jl by (simp add: Cons_nth_drop_Suc)
    show ?thesis
    proof (cases "pred (els ! j)")
      case p: True
      with True ld dr show ?thesis
        unfolding els_def [symmetric] j_def [symmetric]
        by (subst findIndex_for.simps) simp
    next
      case p: False
      have "0 \<le>s i + 1" "i + 1 \<le>s size' (objs s this)"
        using True "1.prems"(2) sint_inc [OF True] by (simp_all add: word_sle_eq word_sless_alt)
      from "1.IH" [OF True ld p "1.prems"(1) this]
      have "findIndex_for this pred (i + 1) s =
           Returned (if \<exists>x \<in> set (drop (Suc j) els). pred x
                     then i + 1 + of_nat (length (takeWhile (\<lambda>x. \<not> pred x) (drop (Suc j) els)))
                     else - 1) s"
        unfolding els_def [symmetric] nat_sint_inc [OF "1.prems"(2) True] j_def [symmetric] .
      with True ld dr p show ?thesis
        unfolding els_def [symmetric] j_def [symmetric]
        by (subst findIndex_for.simps) simp
    qed
  qed
qed

lemma find_for_spec:
  assumes "valid this s" and "0 \<le>s i" and "i \<le>s size' (objs s this)"
  shows "find_for this pred i s =
           Returned (if \<exists>x \<in> set (drop (nat (sint i)) (elements this s)). pred x
                     then Some (data (objs s this),
                            i + of_nat (length (takeWhile (\<lambda>x. \<not> pred x)
                                                (drop (nat (sint i)) (elements this s)))))
                     else None) s"
  using assms
proof (induction this pred i s rule: find_for.induct)
  case (1 this pred i s)
  define els where "els = elements this s"
  define j where "j = nat (sint i)"
  have len: "int (length els) = sint (size' (objs s this))"
    unfolding els_def by (rule length_elements [OF "1.prems"(1)])
  show ?case
  proof (cases "i <s size' (objs s this)")
    case False
    with "1.prems"(3) len have "length els \<le> j"
      by (simp add: j_def word_sless_alt word_sle_eq)
    with False show ?thesis
      unfolding els_def [symmetric] j_def [symmetric]
      by (subst find_for.simps) simp
  next
    case True
    from True "1.prems"(2) len have jl: "j < length els"
      by (simp add: j_def word_sless_alt word_sle_eq)
    have ld: "load (data (objs s this)) i s = Some (els ! j)"
      unfolding els_def j_def by (rule valid_load [OF "1.prems"(1,2) True])
    have dr: "drop j els = els ! j # drop (Suc j) els"
      using jl by (simp add: Cons_nth_drop_Suc)
    show ?thesis
    proof (cases "pred (els ! j)")
      case p: True
      with True ld dr show ?thesis
        unfolding els_def [symmetric] j_def [symmetric]
        by (subst find_for.simps) simp
    next
      case p: False
      have "0 \<le>s i + 1" "i + 1 \<le>s size' (objs s this)"
        using True "1.prems"(2) sint_inc [OF True] by (simp_all add: word_sle_eq word_sless_alt)
      from "1.IH" [OF True ld p "1.prems"(1) this]
      have "find_for this pred (i + 1) s =
           Returned (if \<exists>x \<in> set (drop (Suc j) els). pred x
                     then Some (data (objs s this),
                       i + 1 + of_nat (length (takeWhile (\<lambda>x. \<not> pred x) (drop (Suc j) els))))
                     else None) s"
        unfolding els_def [symmetric] nat_sint_inc [OF "1.prems"(2) True] j_def [symmetric] .
      with True ld dr p show ?thesis
        unfolding els_def [symmetric] j_def [symmetric]
        by (subst find_for.simps) simp
    qed
  qed
qed

lemma Array_ctor_spec:
  assumes "0 \<le>s initialCapacity"
  shows "\<exists>s'. Array_ctor this initialCapacity s = Returned () s' \<and> valid this s' \<and>
           elements this s' = [] \<and> size' (objs s' this) = 0 \<and>
           capacity (objs s' this) = initialCapacity \<and>
           (\<forall>r. r \<noteq> this \<longrightarrow> objs s' r = objs s r)"
proof -
  from assms have "\<not> initialCapacity <s 0" by (simp add: word_sle_eq word_sless_alt)
  then show ?thesis
    using assms
    by (simp add: Array_ctor_def new_array_value_def Let_def valid_def elements_def
          buffer_cons fresh_nonzero word_sle_eq)
qed


section \<open>The doubling loop where the product overflows\<close>

text \<open>
  Once \<open>newCapacity\<close> is \<open>0\<close> and \<open>minCapacity\<close> is positive, the loop doubles \<open>0\<close> for
  ever.
\<close>

lemma ensureCapacity_while_zero: "0 <s m \<Longrightarrow> ensureCapacity_while 0 m = None"
proof (rule ccontr)
  assume m: "0 <s m" and "ensureCapacity_while 0 m \<noteq> None"
  then obtain y where y: "ensureCapacity_while 0 m = Some y" by auto
  have "\<not> (0 = (0::cint) \<and> 0 <s m)"
    by (rule ensureCapacity_while.raw_induct [where P = "\<lambda>n m y. \<not> (n = 0 \<and> 0 <s m)", OF _ y])
       (auto split: if_splits)
  with m show False by simp
qed

lemma ensureCapacity_while_overflow: "ensureCapacity_while 0x80000000 0x40000001 = None"
proof -
  have a: "(0x80000000 :: cint) <s 0x40000001" by (simp add: word_sless_alt)
  have b: "(0x80000000 * 2 :: cint) = 0" by simp
  have c: "(0::cint) <s 0x40000001" by (simp add: word_sless_alt)
  show ?thesis
    by (subst ensureCapacity_while.simps)
       (simp only: a if_True b ensureCapacity_while_zero [OF c])
qed

section \<open>Sequences of pushes\<close>










section \<open>A full container of \<open>2^30\<close> slots\<close>

text \<open>The next push or unshift never returns.\<close>

lemma ensureCapacity_diverges:
  assumes "sint (capacity (objs s this)) = 2 ^ 30"
  shows "ensureCapacity this 0x40000001 s = Diverges"
proof -
  from assms have "sint (capacity (objs s this)) = sint (0x40000000 :: cint)" by simp
  then have cap: "capacity (objs s this) = 0x40000000" by (rule signed_word_eqI)
  then show ?thesis
    by (simp add: ensureCapacity_def word_sle_eq word_sless_alt ensureCapacity_while_overflow)
qed




section \<open>Facts about the example states\<close>

lemma valid_packed_memory: "valid 0 packed_memory"
  by (simp add: valid_def packed_memory_def buffer_def word_sle_eq)

lemma elements_packed_memory: "elements 0 packed_memory = [10, 20]"
  by (simp add: elements_def packed_memory_def buffer_def)

lemma valid_full_memory: "valid 0 full_memory"
  by (simp add: valid_def full_memory_def buffer_def word_sle_eq)

lemma full_memory_full:
  "sint (size' (objs full_memory 0)) = 2 ^ 30" "sint (capacity (objs full_memory 0)) = 2 ^ 30"
  by (simp_all add: full_memory_def)

section \<open>Single steps of the driver\<close>

lemma push_step:
  assumes "valid this s" and "elements this s = els" and "sint (capacity (objs s this)) = c"
      and "int (length els) < c \<or> c < 2 ^ 30"
  shows "\<exists>s'. push this (Object v) s = Returned () s' \<and> valid this s' \<and>
           elements this s' = els @ [v] \<and>
           sint (capacity (objs s' this)) =
             (if int (length els) < c then c else spec_newCapacity c (int (length els) + 1))"
proof -
  from length_elements [OF assms(1)] assms(2)
  have z: "sint (size' (objs s this)) = int (length els)" by simp
  with assms(3,4) have room: "size' (objs s this) <s capacity (objs s this) \<or>
      sint (capacity (objs s this)) < 2 ^ 30"
    by (auto simp: word_sless_alt)
  have dr: "deref (Object v) s = Some v" by simp
  from push_spec [OF assms(1) room dr] show ?thesis
    unfolding word_sless_alt z assms(2,3) by auto
qed

lemma unshift_step:
  assumes "valid this s" and "elements this s = els" and "sint (capacity (objs s this)) = c"
      and "int (length els) < c \<or> c < 2 ^ 30"
  shows "\<exists>s'. unshift this (Object v) s = Returned () s' \<and> valid this s' \<and>
           elements this s' = v # els \<and>
           sint (capacity (objs s' this)) =
             (if int (length els) < c then c else spec_newCapacity c (int (length els) + 1))"
proof -
  from length_elements [OF assms(1)] assms(2)
  have z: "sint (size' (objs s this)) = int (length els)" by simp
  with assms(3,4) have room: "size' (objs s this) <s capacity (objs s this) \<or>
      sint (capacity (objs s this)) < 2 ^ 30"
    by (auto simp: word_sless_alt)
  have dr: "deref (Object v) s = Some v" by simp
  from unshift_spec [OF assms(1) room dr] show ?thesis
    unfolding word_sless_alt z assms(2,3) by auto
qed

lemma size_elements:
  assumes "valid this s" and "elements this s = els" and "sint (n::cint) = int (length els)"
  shows "size' (objs s this) = n"
proof -
  from length_elements [OF assms(1)] assms(2,3)
  have "sint (size' (objs s this)) = sint n" by simp
  then show ?thesis by (rule signed_word_eqI)
qed

lemma sint_eqI: "sint (a::cint) = sint b \<Longrightarrow> a = b"
  by (rule signed_word_eqI)

section \<open>Concrete runs with a reference into the container\<close>








section \<open>The claims\<close>

text \<open>
  C3: copy-assigning a container to itself, \<open>a = a\<close>, is a no-op. The operator compares
  the two addresses first and returns \<open>*this\<close>; the memory after the call is the memory
  before it, so the length, the capacity and every element of \<open>a\<close> are as before, and
  \<open>a\<close> is valid if it was.
\<close>

theorem operator_assign_copy_self:
  "operator_assign_copy a a s = Returned a s"
  by (simp add: operator_assign_copy_def)

text \<open>
  C10: move-assigning a container to itself, \<open>a = std::move(a)\<close>, leaves it as it was.
  The guard \<open>this != &other\<close> skips the body: the memory after the call is the memory
  before it, so no buffer is released and the length, the capacity and the elements of
  \<open>a\<close> are as before.
\<close>

theorem operator_assign_move_self:
  "operator_assign_move a a s = Returned a s"
  by (simp add: operator_assign_move_def)

text \<open>
  C4: the doubling loop of ensureCapacity at \<open>capacity = 2^30\<close> and
  \<open>minCapacity = 2^30 + 1\<close>, both legal (\<open>0 \<le> capacity < minCapacity\<close>). The first
  candidate \<open>capacity * 2\<close> wraps around to \<open>-2^31\<close>, the next product is \<open>0\<close>, and the
  loop never returns.
\<close>

theorem ensureCapacity_while_diverges:
  "(0::cint) \<le>s 0x40000000 \<and> (0x40000000::cint) <s 0x40000001 \<and>
   ensureCapacity_while (if (0::cint) <s 0x40000000 then 0x40000000 * 2 else 1) 0x40000001 = None"
  using ensureCapacity_while_overflow by (simp add: word_sle_eq word_sless_alt)

text \<open>
  C6: indexed access fails with the out-of-range exception exactly when \<open>index < 0\<close> or
  \<open>index \<ge> size\<close>. Whatever it throws, it throws that exception and leaves the memory as
  it was. When it returns, the memory is as it was and the reference is the slot
  \<open>index\<close> of \<open>data\<close>, with \<open>0 \<le> index < size\<close>. It reads no slot at all: it is never
  undefined, and its outcome is the same whatever the buffers hold.
\<close>

theorem operator_subscript_bounds:
  "((\<exists>s'. operator_subscript this index s = Thrown (out_of_range ''Index out of bounds'') s')
      = (index <s 0 \<or> size' (objs s this) \<le>s index)) \<and>
   (\<forall>e s'. operator_subscript this index s = Thrown e s' \<longrightarrow>
      e = out_of_range ''Index out of bounds'' \<and> s' = s) \<and>
   (\<forall>slot s'. operator_subscript this index s = Returned slot s' \<longrightarrow>
      s' = s \<and> slot = (data (objs s this), index) \<and> 0 \<le>s index \<and> index <s size' (objs s this)) \<and>
   operator_subscript this index s \<noteq> Undefined \<and>
   operator_subscript this index s \<noteq> Diverges \<and>
   (\<forall>bs. operator_subscript this index (s\<lparr>bufs := bs\<rparr>) =
      (case operator_subscript this index s of
         Returned slot _ \<Rightarrow> Returned slot (s\<lparr>bufs := bs\<rparr>)
       | Thrown e _ \<Rightarrow> Thrown e (s\<lparr>bufs := bs\<rparr>)
       | Undefined \<Rightarrow> Undefined
       | Diverges \<Rightarrow> Diverges))"
proof (cases "index <s 0 \<or> size' (objs s this) \<le>s index")
  case True
  then show ?thesis
    by (simp add: operator_subscript_def)
next
  case False
  then have "0 \<le>s index" "index <s size' (objs s this)"
    by (simp_all add: word_sle_eq word_sless_alt)
  with False show ?thesis
    by (simp add: operator_subscript_def)
qed


theorem operator_subscript_bounds_witness:
  "operator_subscript 0 2 example_memory
     = Thrown (out_of_range ''Index out of bounds'') example_memory \<and>
   operator_subscript 0 1 example_memory \<noteq> Thrown (out_of_range ''Index out of bounds'') example_memory"
proof -
  have out: "(2::cint) <s 0 \<or> size' (objs example_memory 0) \<le>s 2"
    by (simp add: example_memory_def word_sle_eq)
  have inside: "\<not> ((1::cint) <s 0 \<or> size' (objs example_memory 0) \<le>s 1)"
    by (simp add: example_memory_def word_sle_eq word_sless_alt)
  note at2 = operator_subscript_bounds [of 0 2 example_memory]
  note at1 = operator_subscript_bounds [of 0 1 example_memory]
  from at2 [THEN conjunct1] out
  obtain s' where "operator_subscript 0 2 example_memory
      = Thrown (out_of_range ''Index out of bounds'') s'"
    by blast
  moreover from this at2 [THEN conjunct2, THEN conjunct1] have "s' = example_memory"
    by blast
  moreover from at1 [THEN conjunct1] inside
  have "operator_subscript 0 1 example_memory
      \<noteq> Thrown (out_of_range ''Index out of bounds'') example_memory"
    by blast
  ultimately show ?thesis by simp
qed

text \<open>
  C7: on a container with \<open>size = 0\<close>, \<open>pop\<close> and \<open>shift\<close> both throw (the code signals
  the empty container with \<open>std::out_of_range\<close> and a message of its own), and the memory
  at the throw is the memory before the call: length, capacity and elements are unchanged.
\<close>

theorem pop_shift_empty:
  "size' (objs s this) = 0 \<Longrightarrow>
     pop this s = Thrown (out_of_range ''Pop from empty array'') s \<and>
     shift this s = Thrown (out_of_range ''Shift from empty array'') s"
  by (simp add: pop_def shift_def)

theorem pop_shift_empty_witness:
  "size' (objs empty_memory 0) = 0 \<and>
   pop 0 empty_memory = Thrown (out_of_range ''Pop from empty array'') empty_memory \<and>
   shift 0 empty_memory = Thrown (out_of_range ''Shift from empty array'') empty_memory"
proof -
  have h: "size' (objs empty_memory 0) = 0" by (simp add: empty_memory_def)
  from h pop_shift_empty [OF h] show ?thesis by simp
qed

text \<open>
  C1, amended: if \<open>capacity \<ge> minCapacity\<close>, the call changes nothing, in every state.
  Otherwise, on a valid container and for a \<open>minCapacity\<close> such that the value the growth
  rule of the specification gives (start from \<open>max(capacity, 1)\<close>, double until
  \<open>\<ge> minCapacity\<close>) is an \<open>int\<close>, that is below \<open>2^31\<close>, the call returns with \<open>capacity\<close>
  set to that value, \<open>size\<close> and the elements, in order, are as before, and the container
  is valid.
\<close>

theorem ensureCapacity_doubles:
  "(minCapacity \<le>s capacity (objs s this) \<longrightarrow>
      ensureCapacity this minCapacity s = Returned () s) \<and>
   (valid this s \<and> capacity (objs s this) <s minCapacity \<and>
    spec_newCapacity (sint (capacity (objs s this))) (sint minCapacity) < 2 ^ 31 \<longrightarrow>
      (\<exists>s'. ensureCapacity this minCapacity s = Returned () s' \<and>
            sint (capacity (objs s' this))
              = spec_newCapacity (sint (capacity (objs s this))) (sint minCapacity) \<and>
            size' (objs s' this) = size' (objs s this) \<and>
            elements this s' = elements this s \<and>
            valid this s'))"
proof (intro conjI impI)
  assume "minCapacity \<le>s capacity (objs s this)"
  then show "ensureCapacity this minCapacity s = Returned () s"
    by (rule ensureCapacity_noop)
next
  assume "valid this s \<and> capacity (objs s this) <s minCapacity \<and>
    spec_newCapacity (sint (capacity (objs s this))) (sint minCapacity) < 2 ^ 31"
  then have v: "valid this s" and lt: "capacity (objs s this) <s minCapacity"
    and rep: "spec_newCapacity (sint (capacity (objs s this))) (sint minCapacity) < 2 ^ 31"
    by simp_all
  from ensureCapacity_grow [OF v lt rep]
  show "\<exists>s'. ensureCapacity this minCapacity s = Returned () s' \<and>
            sint (capacity (objs s' this))
              = spec_newCapacity (sint (capacity (objs s this))) (sint minCapacity) \<and>
            size' (objs s' this) = size' (objs s this) \<and>
            elements this s' = elements this s \<and>
            valid this s'"
    by blast
qed

theorem ensureCapacity_doubles_witness:
  "ensureCapacity 0 2 packed_memory = Returned () packed_memory \<and>
   valid 0 packed_memory \<and> capacity (objs packed_memory 0) <s 5 \<and>
   spec_newCapacity (sint (capacity (objs packed_memory 0))) (sint (5 :: cint)) = 8 \<and>
   (\<exists>s'. ensureCapacity 0 5 packed_memory = Returned () s' \<and>
         sint (capacity (objs s' 0)) = 8 \<and> size' (objs s' 0) = 2 \<and>
         elements 0 s' = [10, 20] \<and> valid 0 s')"
proof -
  have le: "(2::cint) \<le>s capacity (objs packed_memory 0)"
    by (simp add: packed_memory_def word_sle_eq)
  have sp: "spec_newCapacity (sint (capacity (objs packed_memory 0))) (sint (5 :: cint)) = 8"
    by (simp add: packed_memory_def spec_newCapacity_def double_until.simps)
  then have rep: "spec_newCapacity (sint (capacity (objs packed_memory 0))) (sint (5 :: cint)) < 2 ^ 31"
    by simp
  have lt: "capacity (objs packed_memory 0) <s 5"
    by (simp add: packed_memory_def word_sless_alt)
  have sz: "size' (objs packed_memory 0) = 2"
    by (simp add: packed_memory_def)
  from ensureCapacity_doubles [where minCapacity = 2 and s = packed_memory and this = 0] le
  have noop: "ensureCapacity 0 2 packed_memory = Returned () packed_memory"
    by blast
  from ensureCapacity_doubles [where minCapacity = 5 and s = packed_memory and this = 0]
    valid_packed_memory lt rep
  have "\<exists>s'. ensureCapacity 0 5 packed_memory = Returned () s' \<and>
         sint (capacity (objs s' 0))
           = spec_newCapacity (sint (capacity (objs packed_memory 0))) (sint (5 :: cint)) \<and>
         size' (objs s' 0) = size' (objs packed_memory 0) \<and>
         elements 0 s' = elements 0 packed_memory \<and> valid 0 s'"
    by blast
  then have "\<exists>s'. ensureCapacity 0 5 packed_memory = Returned () s' \<and>
         sint (capacity (objs s' 0)) = 8 \<and> size' (objs s' 0) = 2 \<and>
         elements 0 s' = [10, 20] \<and> valid 0 s'"
    unfolding sp sz elements_packed_memory .
  with noop valid_packed_memory lt sp show ?thesis by blast
qed

text \<open>
  C1 as stated, for every container and every \<open>minCapacity\<close>, fails on a valid container
  of capacity \<open>2^30\<close> asked for \<open>2^30 + 1\<close> slots: the doubled value \<open>2^31\<close> is no
  \<open>int\<close>, and the call never returns.
\<close>

theorem ensureCapacity_doubles_counterexample:
  "valid 0 full_memory \<and> capacity (objs full_memory 0) <s 0x40000001 \<and>
   ensureCapacity 0 0x40000001 full_memory = Diverges"
  using valid_full_memory ensureCapacity_diverges [OF full_memory_full(2)]
  by (simp add: full_memory_def word_sless_alt)










text \<open>
  C5: the run of the driver, from any memory and for any address of \<open>arr\<close>. After the
  constructor and three pushes the length is 3 and the capacity 5; after three more,
  6 and 10; after three more the length is 9; \<open>unshift(0)\<close> gives
  \<open>[0,1,2,3,4,5,6,1,2,3]\<close> and length 10; \<open>pop\<close> returns the trailing 3 and \<open>shift\<close> the
  leading 0, which leaves \<open>[1,2,3,4,5,6,1,2]\<close>; then \<open>findIndex(x == 2)\<close> returns 1 and
  \<open>find(x > 3)\<close> returns a pointer to a slot that holds 4.
\<close>

theorem main_scenario:
  "\<exists>s3 s6 s9 s10 s11 s12.
     run (take 4 (main_statements arr)) s = Returned () s3 \<and>
     getSize arr s3 = 3 \<and> getCapacity arr s3 = 5 \<and>
     run (take 7 (main_statements arr)) s = Returned () s6 \<and>
     getSize arr s6 = 6 \<and> getCapacity arr s6 = 10 \<and>
     run (take 10 (main_statements arr)) s = Returned () s9 \<and>
     getSize arr s9 = 9 \<and>
     run (take 11 (main_statements arr)) s = Returned () s10 \<and>
     elements arr s10 = [0, 1, 2, 3, 4, 5, 6, 1, 2, 3] \<and> getSize arr s10 = 10 \<and>
     pop arr s10 = Returned 3 s11 \<and> elements arr s11 = [0, 1, 2, 3, 4, 5, 6, 1, 2] \<and>
     shift arr s11 = Returned 0 s12 \<and> elements arr s12 = [1, 2, 3, 4, 5, 6, 1, 2] \<and>
     run (main_statements arr) s = Returned () s12 \<and>
     findIndex arr (\<lambda>x. x = 2) s12 = Returned 1 s12 \<and>
     (\<exists>p i. find' arr (\<lambda>x. 3 < x) s12 = Returned (Some (p, i)) s12 \<and> load p i s12 = Some 4)"
proof -
  note ev = spec_newCapacity_def double_until.simps
  have "(0::cint) \<le>s 5" by (simp add: word_sle_eq)
  from Array_ctor_spec [OF this, of arr s]
  obtain s0 where r0: "Array_ctor arr 5 s = Returned () s0" and v0: "valid arr s0"
    and e0: "elements arr s0 = []" and c0: "sint (capacity (objs s0 arr)) = 5"
    by auto
  from push_step [OF v0 e0 c0, of 1]
  obtain s1 where r1: "push arr (Object 1) s0 = Returned () s1" and v1: "valid arr s1"
    and e1: "elements arr s1 = [1]" and c1: "sint (capacity (objs s1 arr)) = 5"
    by auto
  from push_step [OF v1 e1 c1, of 2]
  obtain s2 where r2: "push arr (Object 2) s1 = Returned () s2" and v2: "valid arr s2"
    and e2: "elements arr s2 = [1, 2]" and c2: "sint (capacity (objs s2 arr)) = 5"
    by auto
  from push_step [OF v2 e2 c2, of 3]
  obtain s3 where r3: "push arr (Object 3) s2 = Returned () s3" and v3: "valid arr s3"
    and e3: "elements arr s3 = [1, 2, 3]" and c3: "sint (capacity (objs s3 arr)) = 5"
    by auto
  from push_step [OF v3 e3 c3, of 4]
  obtain s4 where r4: "push arr (Object 4) s3 = Returned () s4" and v4: "valid arr s4"
    and e4: "elements arr s4 = [1, 2, 3, 4]" and c4: "sint (capacity (objs s4 arr)) = 5"
    by auto
  from push_step [OF v4 e4 c4, of 5]
  obtain s5 where r5: "push arr (Object 5) s4 = Returned () s5" and v5: "valid arr s5"
    and e5: "elements arr s5 = [1, 2, 3, 4, 5]" and c5: "sint (capacity (objs s5 arr)) = 5"
    by auto
  from push_step [OF v5 e5 c5, of 6]
  obtain s6 where r6: "push arr (Object 6) s5 = Returned () s6" and v6: "valid arr s6"
    and e6: "elements arr s6 = [1, 2, 3, 4, 5, 6]" and c6: "sint (capacity (objs s6 arr)) = 10"
    by (auto simp: ev)
  from push_step [OF v6 e6 c6, of 1]
  obtain s7 where r7: "push arr (Object 1) s6 = Returned () s7" and v7: "valid arr s7"
    and e7: "elements arr s7 = [1, 2, 3, 4, 5, 6, 1]" and c7: "sint (capacity (objs s7 arr)) = 10"
    by auto
  from push_step [OF v7 e7 c7, of 2]
  obtain s8 where r8: "push arr (Object 2) s7 = Returned () s8" and v8: "valid arr s8"
    and e8: "elements arr s8 = [1, 2, 3, 4, 5, 6, 1, 2]"
    and c8: "sint (capacity (objs s8 arr)) = 10"
    by auto
  from push_step [OF v8 e8 c8, of 3]
  obtain s9 where r9: "push arr (Object 3) s8 = Returned () s9" and v9: "valid arr s9"
    and e9: "elements arr s9 = [1, 2, 3, 4, 5, 6, 1, 2, 3]"
    and c9: "sint (capacity (objs s9 arr)) = 10"
    by auto
  from unshift_step [OF v9 e9 c9, of 0]
  obtain s10 where r10: "unshift arr (Object 0) s9 = Returned () s10" and v10: "valid arr s10"
    and e10: "elements arr s10 = [0, 1, 2, 3, 4, 5, 6, 1, 2, 3]"
    by auto
  have z10: "size' (objs s10 arr) = 10"
    by (rule size_elements [OF v10 e10]) simp
  then have "size' (objs s10 arr) \<noteq> 0" by simp
  from pop_spec [OF v10 this]
  obtain s11 where r11: "pop arr s10 = Returned 3 s11" and v11: "valid arr s11"
    and e11: "elements arr s11 = [0, 1, 2, 3, 4, 5, 6, 1, 2]"
    unfolding e10 by auto
  have "size' (objs s11 arr) = 9"
    by (rule size_elements [OF v11 e11]) simp
  then have "size' (objs s11 arr) \<noteq> 0" by simp
  from shift_spec [OF v11 this]
  obtain s12 where r12: "shift arr s11 = Returned 0 s12" and v12: "valid arr s12"
    and e12: "elements arr s12 = [1, 2, 3, 4, 5, 6, 1, 2]"
    unfolding e11 by auto
  have z12: "size' (objs s12 arr) = 8"
    by (rule size_elements [OF v12 e12]) simp
  have z0: "(0::cint) \<le>s 0" "0 \<le>s size' (objs s12 arr)"
    by (simp_all add: z12 word_sle_eq)
  have fi: "findIndex arr (\<lambda>x. x = 2) s12 = Returned 1 s12"
    unfolding findIndex_def findIndex_for_spec [OF v12 z0] e12 by simp
  have ff: "find' arr (\<lambda>x. 3 < x) s12 = Returned (Some (data (objs s12 arr), 3)) s12"
    unfolding find'_def find_for_spec [OF v12 z0] e12 by simp
  have "(0::cint) \<le>s 3" "3 <s size' (objs s12 arr)"
    by (simp_all add: z12 word_sle_eq word_sless_alt)
  from valid_load [OF v12 this] have ld: "load (data (objs s12 arr)) 3 s12 = Some 4"
    unfolding e12 by simp
  have g3: "getSize arr s3 = 3" "getCapacity arr s3 = 5"
    unfolding getSize_def getCapacity_def
    by (rule size_elements [OF v3 e3], simp, rule sint_eqI, simp add: c3)
  have g6: "getSize arr s6 = 6" "getCapacity arr s6 = 10"
    unfolding getSize_def getCapacity_def
    by (rule size_elements [OF v6 e6], simp, rule sint_eqI, simp add: c6)
  have g9: "getSize arr s9 = 9"
    unfolding getSize_def by (rule size_elements [OF v9 e9]) simp
  have g10: "getSize arr s10 = 10"
    unfolding getSize_def by (rule z10)
  have t4: "run (take 4 (main_statements arr)) s = Returned () s3"
    by (simp add: main_statements_def r0 r1 r2 r3)
  have t7: "run (take 7 (main_statements arr)) s = Returned () s6"
    by (simp add: main_statements_def r0 r1 r2 r3 r4 r5 r6)
  have t10: "run (take 10 (main_statements arr)) s = Returned () s9"
    by (simp add: main_statements_def r0 r1 r2 r3 r4 r5 r6 r7 r8 r9)
  have t11: "run (take 11 (main_statements arr)) s = Returned () s10"
    by (simp add: main_statements_def r0 r1 r2 r3 r4 r5 r6 r7 r8 r9 r10)
  have t13: "run (main_statements arr) s = Returned () s12"
    by (simp add: main_statements_def discard_def r0 r1 r2 r3 r4 r5 r6 r7 r8 r9 r10 r11 r12)
  from t4 g3 t7 g6 t10 g9 t11 e10 g10 r11 e11 r12 e12 t13 fi ff ld
  show ?thesis by blast
qed

end
